theory Spec2Isabelle
  imports
    Complex_Main
    "HOL-Library.Char_ord"
    "HOL-Library.List_Lexorder"
    "HOL-Library.Log_Nat"
    "HOL-Library.Product_Lexorder"
    "HOL-Library.Multiset"
begin

section \<open>Data model (src/setup/setup.ts, interfaces Item and Checkout)\<close>

text \<open>
  Document ids and all other strings are byte strings (UTF-8), compared byte by byte, which
  is the order the document store uses for string fields. A JavaScript \<open>number\<close> is a
  finite double, represented by the rational it denotes (see the section on numbers below);
  the sign of a difference of two numbers, which is all a comparator is used for, is that of
  the exact difference. The ISO-8601 strings that \<open>new Date().toISOString()\<close>
  writes are represented by the epoch milliseconds they denote (\<open>new Date(s).getTime()\<close>);
  on those strings the string order and the numeric order agree.
\<close>

type_synonym doc_id = string
type_synonym timestamp = int

record item =
  id_i :: doc_id
  name :: string
  description :: string
  price :: rat
  bannerImage :: string
  images :: "string list"
  category_id :: string
  createdAt :: timestamp

record checkout =
  id_c :: doc_id
  user_id :: string
  item_id :: string
  quantity :: int
  is_done :: bool
  last_step :: string
  reason :: string
  createdAt_c :: timestamp
  updatedAt :: timestamp

datatype sort_by = price_asc | price_desc | newest

section \<open>Numbers of the language\<close>

text \<open>
  The arithmetic of JavaScript numbers (IEEE-754 binary64): the exact result rounded to the
  nearest double, ties to the even significand; 53 significant bits, subnormal below 2 to
  the power -1022. Results beyond the largest double (\<open>Infinity\<close>) and \<open>NaN\<close> are not
  represented.
\<close>

definition floor_log2 :: "rat \<Rightarrow> int" where
  "floor_log2 x = (if 1 \<le> x then bitlen \<lfloor>x\<rfloor> - 1 else - bitlen (\<lceil>1 / x\<rceil> - 1))"

definition round_half_even :: "rat \<Rightarrow> int" where
  "round_half_even m =
     (let r = \<lfloor>m\<rfloor>; f = m - of_int r
      in if f < 1 / 2 then r else if 1 / 2 < f then r + 1 else if even r then r else r + 1)"

definition round_double :: "rat \<Rightarrow> rat" where
  "round_double x =
     (if x = 0 then 0
      else (let u = power_int 2 (max (floor_log2 \<bar>x\<bar>) (- 1022) - 52)
            in sgn x * of_int (round_half_even (\<bar>x\<bar> / u)) * u))"

definition js_add :: "rat \<Rightarrow> rat \<Rightarrow> rat" where
  "js_add a b = round_double (a + b)"

definition js_mul :: "rat \<Rightarrow> rat \<Rightarrow> rat" where
  "js_mul a b = round_double (a * b)"

section \<open>The document store\<close>

text \<open>
  Modelled from the spec: the document store, the external service of section 6 that the
  repository reaches through its client library (\<open>getDocs\<close>, \<open>getDoc\<close>, \<open>addDoc\<close>,
  \<open>updateDoc\<close>, \<open>deleteDoc\<close> and the query builders). It holds two collections. Every
  request may fail with an error of the service (the service unreachable, or any other error
  it reports, the missing-index error included): \<open>fault\<close> is the error the service answers
  with, if any, and the store is available when there is none. A query that combines an
  equality filter with an order-by on another field fails with failed-precondition unless a
  composite index has been deployed (section 7, b). A query returns the matching documents
  in the order of its order-by field, ties broken by document id in the same direction, and
  in the order of the document ids when it has no order-by; \<open>startAfter\<close> resumes strictly
  after the position of the given snapshot; \<open>limit\<close> keeps the first documents and accepts
  positive numbers only.
\<close>

datatype store_error = FailedPrecondition | InvalidArgument | NotFound | Unavailable

record store =
  items :: "item list"
  checkouts :: "checkout list"
  fault :: "store_error option"
  composite_index :: bool

definition available :: "store \<Rightarrow> bool" where
  "available st \<longleftrightarrow> fault st = None"

datatype order_field = ByCreatedAt | ByPrice | ByName
datatype direction = Asc | Desc

record items_query =
  where_category_id :: "string option"
  where_name_range :: "(string \<times> string) option"
  order_by :: "(order_field \<times> direction) option"
  start_after :: "item option"
  limit_count :: "int option"

definition matches :: "items_query \<Rightarrow> item \<Rightarrow> bool" where
  "matches q d \<longleftrightarrow>
     (case where_category_id q of None \<Rightarrow> True | Some c \<Rightarrow> category_id d = c) \<and>
     (case where_name_range q of None \<Rightarrow> True | Some (lo, hi) \<Rightarrow> lo \<le> name d \<and> name d \<le> hi)"

definition ordered_by :: "(item \<Rightarrow> 'k::linorder) \<Rightarrow> direction \<Rightarrow> item list \<Rightarrow> item list" where
  "ordered_by f dir ds =
     (case dir of Asc \<Rightarrow> sort_key (\<lambda>d. (f d, id_i d)) ds
               | Desc \<Rightarrow> rev (sort_key (\<lambda>d. (f d, id_i d)) ds))"

definition is_after :: "(item \<Rightarrow> 'k::linorder) \<Rightarrow> direction \<Rightarrow> item \<Rightarrow> item \<Rightarrow> bool" where
  "is_after f dir c d \<longleftrightarrow>
     (case dir of Asc \<Rightarrow> (f c, id_i c) < (f d, id_i d)
               | Desc \<Rightarrow> (f d, id_i d) < (f c, id_i c))"

definition resume_after :: "(item \<Rightarrow> 'k::linorder) \<Rightarrow> direction \<Rightarrow> item option \<Rightarrow> item list \<Rightarrow> item list" where
  "resume_after f dir cur ds = (case cur of None \<Rightarrow> ds | Some c \<Rightarrow> filter (is_after f dir c) ds)"

definition take_limit :: "int option \<Rightarrow> 'a list \<Rightarrow> 'a list" where
  "take_limit lmt ds = (case lmt of None \<Rightarrow> ds | Some n \<Rightarrow> take (nat n) ds)"

definition run_ordered :: "(item \<Rightarrow> 'k::linorder) \<Rightarrow> direction \<Rightarrow> item option \<Rightarrow> int option \<Rightarrow> item list \<Rightarrow> item list" where
  "run_ordered f dir cur lmt ds = take_limit lmt (resume_after f dir cur (ordered_by f dir ds))"

definition run_query :: "items_query \<Rightarrow> item list \<Rightarrow> item list" where
  "run_query q ds =
     (case order_by q of
        None \<Rightarrow> take_limit (limit_count q) (sort_key id_i (filter (matches q) ds))
      | Some (ByPrice, dir) \<Rightarrow> run_ordered price dir (start_after q) (limit_count q) (filter (matches q) ds)
      | Some (ByCreatedAt, dir) \<Rightarrow> run_ordered createdAt dir (start_after q) (limit_count q) (filter (matches q) ds)
      | Some (ByName, dir) \<Rightarrow> run_ordered name dir (start_after q) (limit_count q) (filter (matches q) ds))"

definition needs_composite_index :: "items_query \<Rightarrow> bool" where
  "needs_composite_index q \<longleftrightarrow> where_category_id q \<noteq> None \<and> order_by q \<noteq> None"

definition getDocs :: "store \<Rightarrow> items_query \<Rightarrow> store_error + item list" where
  "getDocs st q =
     (if (case limit_count q of None \<Rightarrow> False | Some n \<Rightarrow> n \<le> 0) then Inl InvalidArgument
      else case fault st of
        Some e \<Rightarrow> Inl e
      | None \<Rightarrow>
          if needs_composite_index q \<and> \<not> composite_index st then Inl FailedPrecondition
          else Inr (run_query q (items st)))"

section \<open>Catalog queries (src/setup/setup.ts)\<close>

subsection \<open>Array helpers of the language\<close>

text \<open>\<open>Array.prototype.sort\<close> is stable; with a comparator that is the difference of two
  keys its result is the stable insertion of each element before the first one it does not
  exceed.\<close>

fun insert_with :: "('a \<Rightarrow> 'a \<Rightarrow> rat) \<Rightarrow> 'a \<Rightarrow> 'a list \<Rightarrow> 'a list" where
  "insert_with cmp x [] = [x]"
| "insert_with cmp x (y # ys) = (if cmp x y \<le> 0 then x # y # ys else y # insert_with cmp x ys)"

definition sort_with :: "('a \<Rightarrow> 'a \<Rightarrow> rat) \<Rightarrow> 'a list \<Rightarrow> 'a list" where
  "sort_with cmp xs = foldr (insert_with cmp) xs []"

fun findIndex :: "('a \<Rightarrow> bool) \<Rightarrow> 'a list \<Rightarrow> int" where
  "findIndex P [] = - 1"
| "findIndex P (x # xs) =
     (if P x then 0 else (let r = findIndex P xs in if r = - 1 then - 1 else r + 1))"

definition slice :: "'a list \<Rightarrow> int \<Rightarrow> int \<Rightarrow> 'a list" where
  "slice xs start fin =
     (let len = int (length xs);
          k = (if start < 0 then max (len + start) 0 else min start len);
          final = (if fin < 0 then max (len + fin) 0 else min fin len)
      in take (nat (final - k)) (drop (nat k) xs))"

subsection \<open>getItemsByCategory and getAllItems\<close>

fun comparator :: "sort_by \<Rightarrow> item \<Rightarrow> item \<Rightarrow> rat" where
  "comparator price_asc a b = price a - price b"
| "comparator price_desc a b = price b - price a"
| "comparator newest a b = of_int (createdAt b - createdAt a)"

definition categoryQuery :: "string \<Rightarrow> items_query" where
  "categoryQuery categoryId =
     \<lparr>where_category_id = Some categoryId, where_name_range = None, order_by = None,
      start_after = None, limit_count = None\<rparr>"

text \<open>The lookup of the category document that the source makes when the category has no
  items only writes to the console, inside its own try/catch; it is left out.\<close>

definition getItemsByCategory ::
  "store \<Rightarrow> string \<Rightarrow> sort_by \<Rightarrow> int \<Rightarrow> item option \<Rightarrow> store_error + (item list \<times> item option)" where
  "getItemsByCategory st categoryId sortBy limitCount lastVisible =
     (case getDocs st (categoryQuery categoryId) of
        Inl e \<Rightarrow> Inl e
      | Inr docs \<Rightarrow>
          (let sorted_items = sort_with (comparator sortBy) docs;
               startIndex =
                 (case lastVisible of
                    None \<Rightarrow> 0
                  | Some lv \<Rightarrow>
                      (let lastVisibleIndex = findIndex (\<lambda>it. id_i it = id_i lv) sorted_items
                       in if lastVisibleIndex \<noteq> - 1 then lastVisibleIndex + 1 else 0));
               paginatedItems = slice sorted_items startIndex (startIndex + limitCount);
               newLastVisible =
                 (if length paginatedItems > 0
                  then find (\<lambda>doc. id_i doc = id_i (last paginatedItems)) docs
                  else None)
           in Inr (paginatedItems, newLastVisible)))"

fun order_for :: "sort_by \<Rightarrow> order_field \<times> direction" where
  "order_for price_asc = (ByPrice, Asc)"
| "order_for price_desc = (ByPrice, Desc)"
| "order_for newest = (ByCreatedAt, Desc)"

definition allItemsQuery :: "sort_by \<Rightarrow> int \<Rightarrow> item option \<Rightarrow> items_query" where
  "allItemsQuery sortBy limitCount lastVisible =
     \<lparr>where_category_id = None, where_name_range = None, order_by = Some (order_for sortBy),
      start_after = lastVisible, limit_count = Some limitCount\<rparr>"

text \<open>\<open>if (categoryId)\<close> is false for \<open>null\<close>, \<open>undefined\<close> and the empty string.\<close>

definition truthy :: "string option \<Rightarrow> bool" where
  "truthy s \<longleftrightarrow> (case s of None \<Rightarrow> False | Some c \<Rightarrow> c \<noteq> [])"

definition getAllItems ::
  "store \<Rightarrow> string option \<Rightarrow> sort_by \<Rightarrow> int \<Rightarrow> item option \<Rightarrow> store_error + (item list \<times> item option)" where
  "getAllItems st categoryId sortBy limitCount lastVisible =
     (if truthy categoryId
      then getItemsByCategory st (the categoryId) sortBy limitCount lastVisible
      else
        (case getDocs st (allItemsQuery sortBy limitCount lastVisible) of
           Inl e \<Rightarrow> Inl e
         | Inr docs \<Rightarrow>
             Inr (docs, if length docs > 0 then Some (last docs) else None)))"

subsection \<open>searchItems\<close>

text \<open>The sentinel \<open>"\\uf8ff"\<close> is the three bytes EF A3 BF in UTF-8.\<close>

definition uf8ff :: string where
  "uf8ff = [CHR 0xEF, CHR 0xA3, CHR 0xBF]"

definition searchQueryOf :: "string \<Rightarrow> int \<Rightarrow> items_query" where
  "searchQueryOf searchQuery limitCount =
     \<lparr>where_category_id = None, where_name_range = Some (searchQuery, searchQuery @ uf8ff),
      order_by = Some (ByName, Asc), start_after = None, limit_count = Some limitCount\<rparr>"

definition searchItems :: "store \<Rightarrow> string \<Rightarrow> int \<Rightarrow> store_error + item list" where
  "searchItems st searchQuery limitCount = getDocs st (searchQueryOf searchQuery limitCount)"

section \<open>Cart and checkout (src/setup/setup.ts)\<close>

text \<open>
  Modelled from the spec: the store's primitives on the \<open>checkouts\<close> collection (section 6).
  \<open>addDoc\<close> writes under an id chosen by the store, passed in as \<open>newId\<close>; \<open>updateDoc\<close>
  merges the given fields into one document and fails with not-found when the document does
  not exist; \<open>deleteDoc\<close> succeeds whether or not it exists; an equality query returns the
  matching documents in the order of their ids. The clock readings of \<open>new Date()\<close> in the
  functions of the repository are parameters.
\<close>

definition addDoc :: "store \<Rightarrow> doc_id \<Rightarrow> checkout \<Rightarrow> store_error + (store \<times> doc_id)" where
  "addDoc st newId checkoutData =
     (case fault st of
        Some e \<Rightarrow> Inl e
      | None \<Rightarrow>
          Inr (st\<lparr>checkouts :=
                   filter (\<lambda>d. id_c d \<noteq> newId) (checkouts st) @ [checkoutData\<lparr>id_c := newId\<rparr>]\<rparr>,
               newId))"

definition updateDoc :: "store \<Rightarrow> doc_id \<Rightarrow> (checkout \<Rightarrow> checkout) \<Rightarrow> store_error + store" where
  "updateDoc st checkoutId upd =
     (case fault st of
        Some e \<Rightarrow> Inl e
      | None \<Rightarrow>
          if checkoutId \<notin> set (map id_c (checkouts st)) then Inl NotFound
          else Inr (st\<lparr>checkouts :=
                        map (\<lambda>d. if id_c d = checkoutId then upd d else d) (checkouts st)\<rparr>))"

definition deleteDoc :: "store \<Rightarrow> doc_id \<Rightarrow> store_error + store" where
  "deleteDoc st checkoutId =
     (case fault st of
        Some e \<Rightarrow> Inl e
      | None \<Rightarrow> Inr (st\<lparr>checkouts := filter (\<lambda>d. id_c d \<noteq> checkoutId) (checkouts st)\<rparr>))"

definition getDocs_checkouts :: "store \<Rightarrow> string \<Rightarrow> bool \<Rightarrow> store_error + checkout list" where
  "getDocs_checkouts st userId done =
     (case fault st of
        Some e \<Rightarrow> Inl e
      | None \<Rightarrow>
          Inr (sort_key id_c (filter (\<lambda>d. user_id d = userId \<and> is_done d = done) (checkouts st))))"


definition getDoc_checkout :: "store \<Rightarrow> doc_id \<Rightarrow> checkout option" where
  "getDoc_checkout st checkoutId = find (\<lambda>d. id_c d = checkoutId) (checkouts st)"

definition getCartItems :: "store \<Rightarrow> string \<Rightarrow> store_error + checkout list" where
  "getCartItems st userId = getDocs_checkouts st userId False"

definition addToCart ::
  "store \<Rightarrow> doc_id \<Rightarrow> timestamp \<Rightarrow> timestamp \<Rightarrow> string \<Rightarrow> string \<Rightarrow> int \<Rightarrow> store_error + (store \<times> doc_id)" where
  "addToCart st newId now1 now2 userId itemId qty =
     addDoc st newId
       \<lparr>id_c = newId, user_id = userId, item_id = itemId, quantity = qty, is_done = False,
        last_step = ''added_to_cart'', reason = [], createdAt_c = now1, updatedAt = now2\<rparr>"

definition updateCartItemQuantity :: "store \<Rightarrow> timestamp \<Rightarrow> doc_id \<Rightarrow> int \<Rightarrow> store_error + store" where
  "updateCartItemQuantity st now checkoutId qty =
     updateDoc st checkoutId (\<lambda>d. d\<lparr>quantity := qty, updatedAt := now\<rparr>)"

definition removeFromCart :: "store \<Rightarrow> doc_id \<Rightarrow> store_error + store" where
  "removeFromCart st checkoutId = deleteDoc st checkoutId"

definition updateCheckoutStep :: "store \<Rightarrow> timestamp \<Rightarrow> doc_id \<Rightarrow> string \<Rightarrow> store_error + store" where
  "updateCheckoutStep st now checkoutId lastStep =
     updateDoc st checkoutId (\<lambda>d. d\<lparr>last_step := lastStep, updatedAt := now\<rparr>)"

definition completeCheckout :: "store \<Rightarrow> timestamp \<Rightarrow> doc_id \<Rightarrow> store_error + store" where
  "completeCheckout st now checkoutId =
     updateDoc st checkoutId (\<lambda>d. d\<lparr>is_done := True, last_step := ''completed'', updatedAt := now\<rparr>)"

subsection \<open>Sequences of cart operations\<close>

text \<open>The requests that create a line item and move it through the pipeline, issued one
  after the other. A failed request leaves the store as it was; the caller only sees the
  error.\<close>

datatype cart_op =
    AddToCart doc_id timestamp timestamp string string int
  | UpdateCartItemQuantity timestamp doc_id int
  | UpdateCheckoutStep timestamp doc_id string
  | CompleteCheckout timestamp doc_id

definition or_unchanged :: "store \<Rightarrow> store_error + store \<Rightarrow> store" where
  "or_unchanged st r = (case r of Inl e \<Rightarrow> st | Inr st' \<Rightarrow> st')"

fun apply_op :: "store \<Rightarrow> cart_op \<Rightarrow> store" where
  "apply_op st (AddToCart newId now1 now2 u i q) =
     (case addToCart st newId now1 now2 u i q of Inl e \<Rightarrow> st | Inr (st', k) \<Rightarrow> st')"
| "apply_op st (UpdateCartItemQuantity now k q) = or_unchanged st (updateCartItemQuantity st now k q)"
| "apply_op st (UpdateCheckoutStep now k s) = or_unchanged st (updateCheckoutStep st now k s)"
| "apply_op st (CompleteCheckout now k) = or_unchanged st (completeCheckout st now k)"

fun run_ops :: "store \<Rightarrow> cart_op list \<Rightarrow> store" where
  "run_ops st [] = st"
| "run_ops st (opn # ops) = run_ops (apply_op st opn) ops"

text \<open>Position of a step in the pipeline added_to_cart, payment, completed.\<close>

definition step_rank :: "string \<Rightarrow> nat option" where
  "step_rank s =
     (if s = ''added_to_cart'' then Some 0
      else if s = ''payment'' then Some 1
      else if s = ''completed'' then Some 2
      else None)"

definition cart_inv :: "store \<Rightarrow> bool" where
  "cart_inv st \<longleftrightarrow>
     distinct (map id_c (checkouts st)) \<and>
     list_all (\<lambda>c. step_rank (last_step c) \<noteq> None \<and> (is_done c = (last_step c = ''completed'')))
       (checkouts st)"

text \<open>The requests the cart and checkout pages issue: \<open>updateCheckoutStep\<close> only with
  \<open>"payment"\<close> and only on a line of the active cart, and new documents under unused ids.\<close>

fun issued_by_pages :: "store \<Rightarrow> cart_op \<Rightarrow> bool" where
  "issued_by_pages st (AddToCart newId now1 now2 u i q) \<longleftrightarrow> newId \<notin> set (map id_c (checkouts st))"
| "issued_by_pages st (UpdateCheckoutStep now k s) \<longleftrightarrow>
     s = ''payment'' \<and> list_all (\<lambda>c. id_c c = k \<longrightarrow> \<not> is_done c) (checkouts st)"
| "issued_by_pages st _ \<longleftrightarrow> True"

fun all_issued_by_pages :: "store \<Rightarrow> cart_op list \<Rightarrow> bool" where
  "all_issued_by_pages st [] \<longleftrightarrow> True"
| "all_issued_by_pages st (opn # ops) \<longleftrightarrow>
     issued_by_pages st opn \<and> all_issued_by_pages (apply_op st opn) ops"

definition rank_of :: "store \<Rightarrow> doc_id \<Rightarrow> nat option" where
  "rank_of st k = (case getDoc_checkout st k of None \<Rightarrow> None | Some c \<Rightarrow> step_rank (last_step c))"

section \<open>Order history (src/app/profile/page.tsx, fetchOrders)\<close>


text \<open>The \<open>reduce\<close> that groups checkouts under the locale date string of \<open>updatedAt\<close>; the
  object's keys are kept in insertion order. \<open>toLocaleDateString\<close> depends on the viewer's
  locale and time zone and is a parameter.\<close>

definition push_group :: "string \<Rightarrow> checkout \<Rightarrow> (string \<times> checkout list) list \<Rightarrow> (string \<times> checkout list) list" where
  "push_group date c acc =
     (if date \<in> set (map fst acc)
      then map (\<lambda>(k, cs). if k = date then (k, cs @ [c]) else (k, cs)) acc
      else acc @ [(date, [c])])"

definition groupedCheckouts :: "(timestamp \<Rightarrow> string) \<Rightarrow> checkout list \<Rightarrow> (string \<times> checkout list) list" where
  "groupedCheckouts toLocaleDateString cs =
     foldl (\<lambda>acc c. push_group (toLocaleDateString (updatedAt c)) c acc) [] cs"






section \<open>Notions used to state the properties\<close>

subsection \<open>Catalog\<close>

text \<open>The array \<open>items\<close> of \<open>getItemsByCategory\<close> after the in-memory sort: the documents of
  the category as the store returns them, sorted with the comparator of the sort order.\<close>

definition sortedCategory :: "store \<Rightarrow> string \<Rightarrow> sort_by \<Rightarrow> item list" where
  "sortedCategory st c sortBy =
     sort_with (comparator sortBy) (sort_key id_i (filter (\<lambda>d. category_id d = c) (items st)))"

text \<open>The position of the cursor's id in a list, \<open>-1\<close> when there is no cursor or no such id.\<close>

definition cursorIndex :: "item option \<Rightarrow> item list \<Rightarrow> int" where
  "cursorIndex lastVisible xs =
     (case lastVisible of None \<Rightarrow> - 1 | Some lv \<Rightarrow> findIndex (\<lambda>it. id_i it = id_i lv) xs)"

text \<open>The order a sort key asks for: non-decreasing price, non-increasing price,
  non-increasing creation time.\<close>

fun precedes :: "sort_by \<Rightarrow> item \<Rightarrow> item \<Rightarrow> bool" where
  "precedes price_asc a b \<longleftrightarrow> price a \<le> price b"
| "precedes price_desc a b \<longleftrightarrow> price b \<le> price a"
| "precedes newest a b \<longleftrightarrow> createdAt b \<le> createdAt a"

text \<open>All items in the order of the store's query for a sort order, and the complete listing
  that a category (or none) and a sort order denote.\<close>

definition orderedAll :: "sort_by \<Rightarrow> item list \<Rightarrow> item list" where
  "orderedAll sb ds =
     (case sb of price_asc \<Rightarrow> ordered_by price Asc ds
               | price_desc \<Rightarrow> ordered_by price Desc ds
               | newest \<Rightarrow> ordered_by createdAt Desc ds)"

definition fullListing :: "store \<Rightarrow> string option \<Rightarrow> sort_by \<Rightarrow> item list" where
  "fullListing st cat sb =
     (if truthy cat then sortedCategory st (the cat) sb else orderedAll sb (items st))"

text \<open>
  The client loop of the page-boundary property of the specification: call \<open>getAllItems\<close>,
  keep the page, call again with the returned cursor, stop when no cursor comes back. The
  number of calls is bounded by \<open>fuel\<close>; running out of it is \<open>None\<close>.
\<close>

fun concat_pages ::
  "nat \<Rightarrow> store \<Rightarrow> string option \<Rightarrow> sort_by \<Rightarrow> int \<Rightarrow> item option \<Rightarrow> (store_error + item list) option" where
  "concat_pages 0 st cat sb n cur = None"
| "concat_pages (Suc fuel) st cat sb n cur =
     (case getAllItems st cat sb n cur of
        Inl e \<Rightarrow> Some (Inl e)
      | Inr (page, None) \<Rightarrow> Some (Inr page)
      | Inr (page, Some c) \<Rightarrow>
          (case concat_pages fuel st cat sb n (Some c) of
             None \<Rightarrow> None
           | Some (Inl e) \<Rightarrow> Some (Inl e)
           | Some (Inr rest) \<Rightarrow> Some (Inr (page @ rest))))"

text \<open>A cursor resumes a listing at position \<open>k\<close>: no cursor and the start, or the item just
  before \<open>k\<close>. The page and cursor a listing yields from there.\<close>

definition resumes_at :: "item list \<Rightarrow> item option \<Rightarrow> nat \<Rightarrow> bool" where
  "resumes_at L cur k \<longleftrightarrow> (cur = None \<and> k = 0) \<or> (\<exists>j<length L. k = Suc j \<and> cur = Some (L ! j))"

definition page_of :: "item list \<Rightarrow> int \<Rightarrow> nat \<Rightarrow> item list \<times> item option" where
  "page_of L n k =
     (take (nat n) (drop k L),
      if take (nat n) (drop k L) = [] then None else Some (last (take (nat n) (drop k L))))"

text \<open>The range filter of \<open>searchItems\<close>, and the greatest code point U+10FFFF in UTF-8.\<close>

definition in_search_range :: "string \<Rightarrow> item \<Rightarrow> bool" where
  "in_search_range p d \<longleftrightarrow> p \<le> name d \<and> name d \<le> p @ uf8ff"

definition max_codepoint :: string where
  "max_codepoint = [CHR 0xF4, CHR 0x8F, CHR 0xBF, CHR 0xBF]"

subsection \<open>Cart and orders\<close>

text \<open>A line item is at a step of the pipeline, and done exactly when completed.\<close>

definition line_ok :: "checkout \<Rightarrow> bool" where
  "line_ok c \<longleftrightarrow> step_rank (last_step c) \<noteq> None \<and> (is_done c = (last_step c = ''completed''))"







subsection \<open>Small stores used to instantiate the results\<close>

definition demo_item :: "doc_id \<Rightarrow> string \<Rightarrow> rat \<Rightarrow> string \<Rightarrow> timestamp \<Rightarrow> item" where
  "demo_item k n p c t =
     \<lparr>id_i = k, name = n, description = [], price = p, bannerImage = [], images = [],
      category_id = c, createdAt = t\<rparr>"

definition demo_store :: store where
  "demo_store =
     \<lparr>items = [demo_item ''a'' ''iPhone'' 10 ''c1'' 3,
               demo_item ''b'' ''iPhonf'' 5 ''c1'' 1,
               demo_item ''c'' ''iPad'' 7 ''c2'' 2],
      checkouts = [], fault = None, composite_index = False\<rparr>"

definition demo_line :: checkout where
  "demo_line =
     \<lparr>id_c = ''k0'', user_id = ''u'', item_id = ''a'', quantity = 2, is_done = False,
      last_step = ''added_to_cart'', reason = [], createdAt_c = 1, updatedAt = 1\<rparr>"

definition demo_cart :: store where
  "demo_cart = demo_store\<lparr>checkouts := [demo_line]\<rparr>"




section \<open>Verified properties\<close>

subsection \<open>Sorting, searching and slicing arrays\<close>

lemma insert_with_insort_key:
  assumes "\<And>a b. cmp a b \<le> 0 \<longleftrightarrow> f a \<le> f b"
  shows "insert_with cmp x ys = insort_key f x ys"
  by (induction ys) (simp_all add: assms)

lemma sort_with_sort_key:
  assumes "\<And>a b. cmp a b \<le> 0 \<longleftrightarrow> f a \<le> (f b :: 'k::linorder)"
  shows "sort_with cmp xs = sort_key f xs"
  by (induction xs) (simp_all add: sort_with_def insert_with_insort_key[OF assms])

lemma sort_with_price_asc: "sort_with (comparator price_asc) xs = sort_key price xs"
  by (rule sort_with_sort_key) simp

lemma sort_with_price_desc: "sort_with (comparator price_desc) xs = sort_key (\<lambda>d. - price d) xs"
  by (rule sort_with_sort_key) simp

lemma sort_with_newest: "sort_with (comparator newest) xs = sort_key (\<lambda>d. - createdAt d) xs"
  by (rule sort_with_sort_key) simp

lemma findIndex_range: "- 1 \<le> findIndex P xs \<and> findIndex P xs < int (length xs)"
  by (induction xs) (auto simp: Let_def)

lemma findIndex_none: "findIndex P xs = - 1 \<longleftrightarrow> (\<forall>x\<in>set xs. \<not> P x)"
proof (induction xs)
  case Nil show ?case by simp
next
  case (Cons x xs)
  have "- 1 \<le> findIndex P xs" using findIndex_range[of P xs] by simp
  with Cons show ?case by (auto simp: Let_def)
qed

lemma findIndex_nth:
  "j < length xs \<Longrightarrow> P (xs ! j) \<Longrightarrow> (\<forall>i<j. \<not> P (xs ! i)) \<Longrightarrow> findIndex P xs = int j"
proof (induction xs arbitrary: j)
  case Nil then show ?case by simp
next
  case (Cons x xs)
  show ?case
  proof (cases j)
    case 0 with Cons.prems show ?thesis by simp
  next
    case (Suc k)
    with Cons.prems have "\<not> P x" by auto
    moreover have "findIndex P xs = int k"
      using Cons.prems Suc by (intro Cons.IH) auto
    ultimately show ?thesis using Suc by (simp add: Let_def)
  qed
qed

lemma findIndex_distinct:
  assumes "distinct (map f xs)" "j < length xs"
  shows "findIndex (\<lambda>x. f x = f (xs ! j)) xs = int j"
proof (rule findIndex_nth[OF assms(2)])
  show "f (xs ! j) = f (xs ! j)" by simp
  show "\<forall>i<j. f (xs ! i) \<noteq> f (xs ! j)"
    using assms by (auto simp: distinct_conv_nth)
qed

lemma slice_take_drop:
  "0 \<le> s \<Longrightarrow> 0 \<le> n \<Longrightarrow> slice xs s (s + n) = take (nat n) (drop (nat s) xs)"
  by (auto simp: slice_def Let_def min_def max_def)

lemma slice_contiguous:
  assumes "0 \<le> s"
  shows "\<exists>m. slice xs s e = take m (drop (nat s) xs)"
proof (cases "s \<le> int (length xs)")
  case True
  then have "min s (int (length xs)) = s" by simp
  then show ?thesis using assms by (auto simp: slice_def Let_def)
next
  case False
  then have "slice xs s e = []" using assms by (simp add: slice_def Let_def min_def)
  moreover have "drop (nat s) xs = []" using False by simp
  ultimately show ?thesis by simp
qed

lemma find_distinct:
  "distinct (map f xs) \<Longrightarrow> x \<in> set xs \<Longrightarrow> find (\<lambda>d. f d = f x) xs = Some x"
  by (induction xs) (auto simp: image_iff)

lemma filter_after_sorted_wrt:
  "sorted_wrt R xs \<Longrightarrow> (\<forall>x\<in>set xs. \<forall>y\<in>set xs. R x y \<longrightarrow> \<not> R y x) \<Longrightarrow> j < length xs
    \<Longrightarrow> filter (R (xs ! j)) xs = drop (Suc j) xs"
proof (induction xs arbitrary: j)
  case Nil then show ?case by simp
next
  case (Cons x xs)
  show ?case
  proof (cases j)
    case 0
    have "\<not> R x x" using Cons.prems(1,2) by auto
    moreover have "filter (R x) xs = xs" using Cons.prems(1) by (auto simp: filter_id_conv)
    ultimately show ?thesis using 0 by simp
  next
    case (Suc k)
    have "R x (xs ! k)" using Cons.prems Suc by auto
    then have "\<not> R (xs ! k) x" using Cons.prems Suc by auto
    moreover have "filter (R (xs ! k)) xs = drop (Suc k) xs"
      using Cons.prems Suc by (intro Cons.IH) auto
    ultimately show ?thesis using Suc by simp
  qed
qed

subsection \<open>The sorted items of a category\<close>

lemma matches_categoryQuery: "matches (categoryQuery c) = (\<lambda>d. category_id d = c)"
  by (intro ext) (simp add: matches_def categoryQuery_def)

lemma getDocs_categoryQuery:
  "available st \<Longrightarrow>
   getDocs st (categoryQuery c) = Inr (sort_key id_i (filter (\<lambda>d. category_id d = c) (items st)))"
proof -
  have "order_by (categoryQuery c) = None" "limit_count (categoryQuery c) = None"
    by (simp_all add: categoryQuery_def)
  then show "available st \<Longrightarrow> ?thesis"
    by (simp add: available_def getDocs_def needs_composite_index_def run_query_def take_limit_def
        matches_categoryQuery)
qed

lemma sorted_wrt_sort_key: "sorted_wrt (\<lambda>a b. f a \<le> f b) (sort_key f xs)"
  using sorted_sort_key[of f xs] by (simp add: sorted_map)

lemma sortedCategory_ordered: "sorted_wrt (precedes sortBy) (sortedCategory st c sortBy)"
proof (cases sortBy)
  case price_asc
  have "precedes price_asc = (\<lambda>a b. price a \<le> price b)" by (intro ext) simp
  then show ?thesis
    using price_asc sorted_wrt_sort_key[of price]
    by (simp add: sortedCategory_def sort_with_price_asc)
next
  case price_desc
  have "precedes price_desc = (\<lambda>a b. - price a \<le> - price b)" by (intro ext) simp
  then show ?thesis
    using price_desc sorted_wrt_sort_key[of "\<lambda>d. - price d"]
    by (simp add: sortedCategory_def sort_with_price_desc)
next
  case newest
  have "precedes newest = (\<lambda>a b. - createdAt a \<le> - createdAt b)" by (intro ext) simp
  then show ?thesis
    using newest sorted_wrt_sort_key[of "\<lambda>d. - createdAt d"]
    by (simp add: sortedCategory_def sort_with_newest)
qed

lemma sort_with_mset: "mset (sort_with (comparator sortBy) xs) = mset xs"
  by (cases sortBy) (simp_all add: sort_with_price_asc sort_with_price_desc sort_with_newest)

lemma sortedCategory_mset:
  "mset (sortedCategory st c sortBy) = mset (filter (\<lambda>d. category_id d = c) (items st))"
  by (simp add: sortedCategory_def sort_with_mset)

lemma cursorIndex_ge: "- 1 \<le> cursorIndex lv xs"
  using findIndex_range by (auto simp: cursorIndex_def split: option.splits)

lemma getItemsByCategory_eq:
  assumes "available st"
  shows "getItemsByCategory st c sortBy limitCount lastVisible =
     (let S = sortedCategory st c sortBy;
          ci = cursorIndex lastVisible S;
          page = slice S (ci + 1) (ci + 1 + limitCount)
      in Inr (page,
              if page = [] then None
              else find (\<lambda>doc. id_i doc = id_i (last page))
                     (sort_key id_i (filter (\<lambda>d. category_id d = c) (items st)))))"
  by (simp add: getItemsByCategory_def getDocs_categoryQuery[OF assms] Let_def sortedCategory_def
      cursorIndex_def split: option.splits)

lemma getAllItems_category:
  "c \<noteq> [] \<Longrightarrow> getAllItems st (Some c) sortBy n cur = getItemsByCategory st c sortBy n cur"
  by (simp add: getAllItems_def truthy_def)

lemma sorted_wrt_take_drop_before:
  assumes "sorted_wrt R xs"
  shows "\<forall>x\<in>set (take k xs). \<forall>y\<in>set (take m (drop k xs)). R x y"
proof -
  have "sorted_wrt R (take k xs @ drop k xs)" using assms by simp
  then have "\<forall>x\<in>set (take k xs). \<forall>y\<in>set (drop k xs). R x y"
    unfolding sorted_wrt_append by blast
  then show ?thesis by (meson in_set_takeD)
qed

subsection \<open>Walking a listing page by page\<close>

lemma last_take_drop:
  assumes "take m (drop k L) \<noteq> []"
  shows "last (take m (drop k L)) = L ! (k + length (take m (drop k L)) - 1)
         \<and> k + length (take m (drop k L)) - 1 < length L"
proof -
  define D where "D = drop k L"
  define p where "p = take m D"
  have ne: "p \<noteq> []" using assms by (simp add: p_def D_def)
  then have len: "0 < length p" by simp
  have lp: "length p \<le> length D" "length p \<le> m" by (simp_all add: p_def)
  have lD: "length D = length L - k" by (simp add: D_def)
  then have kL: "k < length L" using len lp by linarith
  have "last p = p ! (length p - 1)" using ne by (rule last_conv_nth)
  also have "\<dots> = D ! (length p - 1)"
  proof -
    have "length p - 1 < m" using len lp by linarith
    then show ?thesis unfolding p_def by (rule nth_take)
  qed
  also have "\<dots> = L ! (k + (length p - 1))"
  proof -
    have "k \<le> length L" using kL by simp
    then show ?thesis unfolding D_def by (rule nth_drop)
  qed
  finally have "last p = L ! (k + length p - 1)" using len by simp
  moreover have "k + length p - 1 < length L" using len lp lD kL by linarith
  ultimately show ?thesis unfolding p_def D_def by blast
qed

lemma take_append_drop_length:
  "take m (drop k L) @ drop (k + length (take m (drop k L))) L = drop k L"
proof -
  define D where "D = drop k L"
  have "drop (k + length (take m D)) L = drop (length (take m D)) D"
    by (simp add: D_def add.commute)
  also have "\<dots> = drop m D"
  proof (cases "m \<le> length D")
    case True then show ?thesis by simp
  next
    case False then show ?thesis by simp
  qed
  finally have e: "drop (k + length (take m D)) L = drop m D" .
  have "take m D @ drop (k + length (take m D)) L = take m D @ drop m D" by (simp only: e)
  also have "\<dots> = D" by (rule append_take_drop_id)
  finally show ?thesis unfolding D_def .
qed

lemma concat_pages_generic:
  assumes step: "\<And>cur k. resumes_at L cur k \<Longrightarrow> getAllItems st cat sb n cur = Inr (page_of L n k)"
    and pos: "0 < n"
  shows "resumes_at L cur k \<Longrightarrow> length L - k < fuel \<Longrightarrow>
         concat_pages fuel st cat sb n cur = Some (Inr (drop k L))"
proof (induction fuel arbitrary: cur k)
  case 0
  then show ?case by simp
next
  case (Suc fuel)
  let ?p = "take (nat n) (drop k L)"
  have res: "getAllItems st cat sb n cur = Inr (page_of L n k)"
    using step Suc.prems(1) by simp
  show ?case
  proof (cases "?p = []")
    case True
    then have "drop k L = []" using pos by (cases "drop k L") (auto simp: take_Cons')
    then show ?thesis using res True by (simp add: page_of_def)
  next
    case False
    let ?j = "k + length ?p - 1"
    from last_take_drop[OF False]
    have last: "last ?p = L ! ?j" and j: "?j < length L" by simp_all
    have len: "0 < length ?p" using False by simp
    have k': "Suc ?j = k + length ?p" using len by simp
    have r: "resumes_at L (Some (last ?p)) (k + length ?p)"
      unfolding resumes_at_def using last j k' by auto
    have "length L - (k + length ?p) < fuel" using Suc.prems(2) len j by linarith
    from Suc.IH[OF r this]
    have rec: "concat_pages fuel st cat sb n (Some (last ?p)) = Some (Inr (drop (k + length ?p) L))" .
    have "?p @ drop (k + length ?p) L = drop k L" by (rule take_append_drop_length)
    then show ?thesis using res False rec by (simp add: page_of_def del: length_take)
  qed
qed

subsection \<open>Category-scoped listing\<close>

text \<open>
  Claim C1. A call of \<open>getAllItems\<close> with a present (non-empty) category id returns the slice
  \<open>[cursorIndex + 1, cursorIndex + 1 + pageSize)\<close> of the items of that category sorted in
  memory by the requested key; the sorted list holds exactly the items of the category; it is
  non-decreasing in price for \<open>price_asc\<close>, non-increasing in price for \<open>price_desc\<close> and
  non-increasing in \<open>createdAt\<close> for \<open>newest\<close>; so is every page, and every item that
  precedes the page in the sorted list (the earlier pages) precedes every item of the page.
  The start of the slice is also stated without the code's search: with no cursor the page is
  the first \<open>pageSize\<close> items of the sorted list, and with a cursor whose id first occurs at
  position \<open>j\<close> of the sorted list the page is the \<open>pageSize\<close> items that follow position
  \<open>j\<close>, all of them preceded by the items up to \<open>j\<close>.
\<close>

theorem C1_category_page:
  assumes "c \<noteq> []" and "available st"
  shows "\<exists>page cur.
           getAllItems st (Some c) sortBy limitCount lastVisible = Inr (page, cur) \<and>
           page = slice (sortedCategory st c sortBy)
                    (cursorIndex lastVisible (sortedCategory st c sortBy) + 1)
                    (cursorIndex lastVisible (sortedCategory st c sortBy) + 1 + limitCount) \<and>
           (0 \<le> limitCount \<longrightarrow>
              page = take (nat limitCount)
                       (drop (nat (cursorIndex lastVisible (sortedCategory st c sortBy) + 1))
                          (sortedCategory st c sortBy))) \<and>
           mset (sortedCategory st c sortBy) = mset (filter (\<lambda>d. category_id d = c) (items st)) \<and>
           sorted_wrt (precedes sortBy) (sortedCategory st c sortBy) \<and>
           sorted_wrt (precedes sortBy) page \<and>
           (\<forall>x\<in>set (take (nat (cursorIndex lastVisible (sortedCategory st c sortBy) + 1))
                        (sortedCategory st c sortBy)).
              \<forall>y\<in>set page. precedes sortBy x y) \<and>
           (lastVisible = None \<and> 0 \<le> limitCount \<longrightarrow>
              page = take (nat limitCount) (sortedCategory st c sortBy)) \<and>
           (\<forall>lv j. lastVisible = Some lv \<and> 0 \<le> limitCount \<and>
                   j < length (sortedCategory st c sortBy) \<and>
                   id_i (sortedCategory st c sortBy ! j) = id_i lv \<and>
                   (\<forall>i<j. id_i (sortedCategory st c sortBy ! i) \<noteq> id_i lv) \<longrightarrow>
              page = take (nat limitCount) (drop (Suc j) (sortedCategory st c sortBy)) \<and>
              (\<forall>x\<in>set (take (Suc j) (sortedCategory st c sortBy)).
                 \<forall>y\<in>set page. precedes sortBy x y))"
proof -
  let ?S = "sortedCategory st c sortBy"
  let ?ci = "cursorIndex lastVisible ?S"
  let ?page = "slice ?S (?ci + 1) (?ci + 1 + limitCount)"
  have ge: "0 \<le> ?ci + 1" using cursorIndex_ge[of lastVisible ?S] by simp
  obtain m where m: "?page = take m (drop (nat (?ci + 1)) ?S)"
    using slice_contiguous[OF ge] by blast
  have S: "sorted_wrt (precedes sortBy) ?S" by (rule sortedCategory_ordered)
  have "sorted_wrt (precedes sortBy) (drop (nat (?ci + 1)) ?S)"
    using S by (rule sorted_wrt_drop)
  then have within: "sorted_wrt (precedes sortBy) ?page"
    unfolding m by (rule sorted_wrt_take)
  have across: "\<forall>x\<in>set (take (nat (?ci + 1)) ?S). \<forall>y\<in>set ?page. precedes sortBy x y"
    unfolding m by (rule sorted_wrt_take_drop_before[OF S])
  have "\<exists>cur. getAllItems st (Some c) sortBy limitCount lastVisible = Inr (?page, cur)"
    by (simp add: getAllItems_category[OF assms(1)] getItemsByCategory_eq[OF assms(2)] Let_def)
  moreover have td: "0 \<le> limitCount \<longrightarrow> ?page = take (nat limitCount) (drop (nat (?ci + 1)) ?S)"
    using slice_take_drop[OF ge, of limitCount ?S] by simp
  moreover have "lastVisible = None \<and> 0 \<le> limitCount \<longrightarrow> ?page = take (nat limitCount) ?S"
    using td by (auto simp: cursorIndex_def)
  moreover have "\<forall>lv j. lastVisible = Some lv \<and> 0 \<le> limitCount \<and> j < length ?S \<and>
                   id_i (?S ! j) = id_i lv \<and> (\<forall>i<j. id_i (?S ! i) \<noteq> id_i lv) \<longrightarrow>
              ?page = take (nat limitCount) (drop (Suc j) ?S) \<and>
              (\<forall>x\<in>set (take (Suc j) ?S). \<forall>y\<in>set ?page. precedes sortBy x y)"
  proof (intro allI impI)
    fix lv j
    assume a: "lastVisible = Some lv \<and> 0 \<le> limitCount \<and> j < length ?S \<and>
               id_i (?S ! j) = id_i lv \<and> (\<forall>i<j. id_i (?S ! i) \<noteq> id_i lv)"
    have "findIndex (\<lambda>it. id_i it = id_i lv) ?S = int j"
      using a by (intro findIndex_nth) simp_all
    then have ci: "?ci = int j" using a by (simp add: cursorIndex_def)
    then have "nat (?ci + 1) = Suc j" by simp
    then show "?page = take (nat limitCount) (drop (Suc j) ?S) \<and>
               (\<forall>x\<in>set (take (Suc j) ?S). \<forall>y\<in>set ?page. precedes sortBy x y)"
      using td a across by simp
  qed
  ultimately show ?thesis
    using within across S sortedCategory_mset by blast
qed

theorem C1_category_page_witness:
  "''c1'' \<noteq> [] \<and> available demo_store \<and>
   sortedCategory demo_store ''c1'' price_asc
     = [demo_item ''b'' ''iPhonf'' 5 ''c1'' 1, demo_item ''a'' ''iPhone'' 10 ''c1'' 3] \<and>
   (\<exists>page cur.
      getAllItems demo_store (Some ''c1'') price_asc 1 (Some (demo_item ''b'' ''iPhonf'' 5 ''c1'' 1))
        = Inr (page, cur) \<and>
      page = [demo_item ''a'' ''iPhone'' 10 ''c1'' 3] \<and>
      sorted_wrt (precedes price_asc) page)"
proof -
  let ?a = "demo_item ''a'' ''iPhone'' 10 ''c1'' 3"
  let ?b = "demo_item ''b'' ''iPhonf'' 5 ''c1'' 1"
  let ?S = "sortedCategory demo_store ''c1'' price_asc"
  have h1: "''c1'' \<noteq> []" by simp
  have h2: "available demo_store" by (simp add: available_def demo_store_def)
  have S: "?S = [?b, ?a]"
    by (simp add: sortedCategory_def sort_with_def demo_store_def demo_item_def)
  from C1_category_page[OF h1 h2, of price_asc 1 "Some ?b"] obtain page cur where
    r: "getAllItems demo_store (Some ''c1'') price_asc 1 (Some ?b) = Inr (page, cur)"
       "sorted_wrt (precedes price_asc) page"
       "\<forall>lv j. Some ?b = Some lv \<and> (0::int) \<le> 1 \<and> j < length ?S \<and>
                id_i (?S ! j) = id_i lv \<and> (\<forall>i<j. id_i (?S ! i) \<noteq> id_i lv) \<longrightarrow>
           page = take (nat 1) (drop (Suc j) ?S) \<and>
           (\<forall>x\<in>set (take (Suc j) ?S). \<forall>y\<in>set page. precedes price_asc x y)"
    by blast
  have "Some ?b = Some ?b \<and> (0::int) \<le> 1 \<and> 0 < length ?S \<and>
        id_i (?S ! 0) = id_i ?b \<and> (\<forall>i<0. id_i (?S ! i) \<noteq> id_i ?b)"
    by (simp add: S)
  with r(3) have "page = take (nat 1) (drop (Suc 0) ?S)" by blast
  then have "page = [?a]" by (simp add: S)
  with r(1,2) h1 h2 S show ?thesis by blast
qed

lemma set_sortedCategory:
  "set (sortedCategory st c sortBy) = {d \<in> set (items st). category_id d = c}"
  using sortedCategory_mset[of st c sortBy, THEN arg_cong[of _ _ set_mset]] by auto

lemma cursorIndex_missing:
  "id_i lv \<notin> id_i ` set xs \<Longrightarrow> cursorIndex (Some lv) xs = - 1"
  by (force simp: cursorIndex_def findIndex_none image_iff)

text \<open>
  Claim C10. A category-scoped call whose cursor names an item id that does not occur in the
  sorted items of the category does not fail: it returns the first \<open>pageSize\<close> items of the
  sorted list; and whenever the returned page is empty the returned cursor is absent.
\<close>

theorem C10_unknown_cursor_restarts:
  assumes "c \<noteq> []" and "available st" and "0 < limitCount"
  shows "\<exists>page cur.
           getAllItems st (Some c) sortBy limitCount lastVisible = Inr (page, cur) \<and>
           (page = [] \<longrightarrow> cur = None) \<and>
           (\<forall>lv. lastVisible = Some lv \<and> id_i lv \<notin> id_i ` set (sortedCategory st c sortBy)
                 \<longrightarrow> page = take (nat limitCount) (sortedCategory st c sortBy))"
proof -
  let ?S = "sortedCategory st c sortBy"
  let ?page = "slice ?S (cursorIndex lastVisible ?S + 1) (cursorIndex lastVisible ?S + 1 + limitCount)"
  have res: "\<exists>cur. getAllItems st (Some c) sortBy limitCount lastVisible = Inr (?page, cur)
                  \<and> (?page = [] \<longrightarrow> cur = None)"
    by (simp add: getAllItems_category[OF assms(1)] getItemsByCategory_eq[OF assms(2)] Let_def)
  have "?page = take (nat limitCount) ?S"
    if "lastVisible = Some lv" "id_i lv \<notin> id_i ` set ?S" for lv
  proof -
    have "cursorIndex lastVisible ?S = - 1" using that cursorIndex_missing by simp
    then show ?thesis using slice_take_drop[of 0 limitCount ?S] assms(3) by simp
  qed
  with res show ?thesis by blast
qed

theorem C10_unknown_cursor_restarts_witness:
  "''c1'' \<noteq> [] \<and> available demo_store \<and> (0::int) < 1 \<and>
   id_i (demo_item ''zz'' ''gone'' 1 ''c9'' 0) \<notin> id_i ` set (sortedCategory demo_store ''c1'' newest) \<and>
   (\<exists>page cur.
      getAllItems demo_store (Some ''c1'') newest 1 (Some (demo_item ''zz'' ''gone'' 1 ''c9'' 0))
        = Inr (page, cur) \<and>
      (page = [] \<longrightarrow> cur = None) \<and>
      page = take (nat 1) (sortedCategory demo_store ''c1'' newest))"
proof -
  have h1: "''c1'' \<noteq> []" by simp
  have h2: "available demo_store" by (simp add: available_def demo_store_def)
  have h3: "(0::int) < 1" by simp
  have h4: "id_i (demo_item ''zz'' ''gone'' 1 ''c9'' 0)
              \<notin> id_i ` set (sortedCategory demo_store ''c1'' newest)"
    by (auto simp: set_sortedCategory demo_store_def demo_item_def)
  from C10_unknown_cursor_restarts[OF h1 h2 h3, of newest "Some (demo_item ''zz'' ''gone'' 1 ''c9'' 0)"]
  obtain page cur where
    "getAllItems demo_store (Some ''c1'') newest 1 (Some (demo_item ''zz'' ''gone'' 1 ''c9'' 0))
       = Inr (page, cur)"
    "page = [] \<longrightarrow> cur = None"
    "\<forall>lv. Some (demo_item ''zz'' ''gone'' 1 ''c9'' 0) = Some lv
            \<and> id_i lv \<notin> id_i ` set (sortedCategory demo_store ''c1'' newest)
          \<longrightarrow> page = take (nat 1) (sortedCategory demo_store ''c1'' newest)"
    by blast
  with h1 h2 h3 h4 show ?thesis by blast
qed

lemma matches_allItemsQuery: "matches (allItemsQuery sortBy n cur) = (\<lambda>d. True)"
  by (intro ext) (simp add: matches_def allItemsQuery_def)

lemma getAllItems_plain:
  assumes "\<not> truthy categoryId"
  shows "getAllItems st categoryId sortBy n cur =
          (case getDocs st (allItemsQuery sortBy n cur) of
             Inl e \<Rightarrow> Inl e
           | Inr docs \<Rightarrow> Inr (docs, if docs = [] then None else Some (last docs)))"
  using assms by (simp add: getAllItems_def split: sum.splits)

lemma length_take_limit: "0 \<le> n \<Longrightarrow> int (length (take_limit (Some n) xs)) \<le> n"
  by (simp add: take_limit_def)

lemma length_run_query:
  "limit_count q = Some n \<Longrightarrow> 0 \<le> n \<Longrightarrow> int (length (run_query q ds)) \<le> n"
  by (auto simp: run_query_def run_ordered_def take_limit_def
      split: option.splits prod.splits order_field.splits)

subsection \<open>Listing without a category\<close>

text \<open>
  Claim C3 as written fails: the cursor is not withheld from a short page. On the demo store
  a page size of 8 returns the three items of the store and the cursor is the last of them.
\<close>

theorem C3_short_page_has_cursor:
  "getAllItems demo_store None price_asc 8 None =
     Inr ([demo_item ''b'' ''iPhonf'' 5 ''c1'' 1, demo_item ''c'' ''iPad'' 7 ''c2'' 2,
           demo_item ''a'' ''iPhone'' 10 ''c1'' 3],
          Some (demo_item ''a'' ''iPhone'' 10 ''c1'' 3)) \<and>
   int (length [demo_item ''b'' ''iPhonf'' 5 ''c1'' 1, demo_item ''c'' ''iPad'' 7 ''c2'' 2,
                demo_item ''a'' ''iPhone'' 10 ''c1'' 3]) < 8"
  by (simp add: getAllItems_def truthy_def available_def getDocs_def allItemsQuery_def
      needs_composite_index_def run_query_def run_ordered_def take_limit_def resume_after_def
      ordered_by_def matches_def demo_store_def demo_item_def)

text \<open>
  Claim C3, amended. A call of \<open>getAllItems\<close> without a category returns at most \<open>pageSize\<close>
  items; the returned cursor is the last item of the page whenever the page is not empty, and
  it is absent exactly when the page is empty. (That fewer than \<open>pageSize\<close> items came back
  is what the caller tests to detect the end of the data.)
\<close>

theorem C3_next_cursor_is_last_item:
  assumes "\<not> truthy categoryId" and "available st" and "0 < limitCount"
  shows "\<exists>page cur.
           getAllItems st categoryId sortBy limitCount lastVisible = Inr (page, cur) \<and>
           int (length page) \<le> limitCount \<and>
           cur = (if page = [] then None else Some (last page)) \<and>
           (cur = None \<longleftrightarrow> page = [])"
proof -
  let ?q = "allItemsQuery sortBy limitCount lastVisible"
  have lim: "limit_count ?q = Some limitCount" by (simp add: allItemsQuery_def)
  have nci: "\<not> needs_composite_index ?q"
    by (simp add: needs_composite_index_def allItemsQuery_def)
  have docs: "getDocs st ?q = Inr (run_query ?q (items st))"
    using assms(2,3) lim nci by (simp add: available_def getDocs_def)
  have "int (length (run_query ?q (items st))) \<le> limitCount"
    using length_run_query[OF lim] assms(3) by simp
  then show ?thesis
    by (simp add: getAllItems_plain[OF assms(1)] docs)
qed

theorem C3_next_cursor_is_last_item_witness:
  "\<not> truthy None \<and> available demo_store \<and> (0::int) < 2 \<and>
   (\<exists>page cur.
      getAllItems demo_store None price_desc 2 None = Inr (page, cur) \<and>
      int (length page) \<le> 2 \<and>
      cur = (if page = [] then None else Some (last page)) \<and>
      (cur = None \<longleftrightarrow> page = []))"
proof -
  have h1: "\<not> truthy None" by (simp add: truthy_def)
  have h2: "available demo_store" by (simp add: available_def demo_store_def)
  have h3: "(0::int) < 2" by simp
  from C3_next_cursor_is_last_item[OF h1 h2 h3, of price_desc None] h1 h2 h3
  show ?thesis by blast
qed

lemma slice_sorted_wrt:
  assumes "0 \<le> s" and "sorted_wrt R xs"
  shows "sorted_wrt R (slice xs s e)"
proof -
  obtain m where "slice xs s e = take m (drop (nat s) xs)"
    using slice_contiguous[OF assms(1)] by blast
  then show ?thesis using assms(2) by (simp add: sorted_wrt_take sorted_wrt_drop)
qed

subsection \<open>The missing composite index\<close>

text \<open>A store without the composite index rejects a category-filtered, ordered query; the two
  queries that \<open>getAllItems\<close> builds are not of that kind.\<close>

lemma getDocs_filtered_ordered_fails:
  assumes "available st" and "\<not> composite_index st"
  shows "getDocs st \<lparr>where_category_id = Some c, where_name_range = None,
            order_by = Some (order_for sortBy), start_after = cur, limit_count = None\<rparr>
         = Inl FailedPrecondition"
  using assms by (simp add: available_def getDocs_def needs_composite_index_def)

lemma issued_queries_need_no_composite_index:
  "\<not> needs_composite_index (categoryQuery c)"
  "\<not> needs_composite_index (allItemsQuery sortBy n cur)"
  by (simp_all add: needs_composite_index_def categoryQuery_def allItemsQuery_def)

text \<open>Whatever error the store reports for the query a call issues is passed on to the
  caller unchanged: the catch blocks log and rethrow.\<close>

lemma getDocs_fault:
  "fault st = Some e \<Longrightarrow> \<not> (case limit_count q of None \<Rightarrow> False | Some n \<Rightarrow> n \<le> 0)
   \<Longrightarrow> getDocs st q = Inl e"
  by (simp add: getDocs_def)

lemma getAllItems_propagates:
  "getDocs st (if truthy categoryId then categoryQuery (the categoryId)
               else allItemsQuery sortBy limitCount lastVisible) = Inl e
   \<Longrightarrow> getAllItems st categoryId sortBy limitCount lastVisible = Inl e"
  by (simp add: getAllItems_def getItemsByCategory_def split: if_splits)

text \<open>
  Claim C8 as written fails: the service has no handler for the error. When the store answers
  the query of a category listing with failed-precondition, \<open>getItemsByCategory\<close> and
  \<open>getAllItems\<close> log and rethrow, and the caller of \<open>getAllItems\<close> receives the error.
\<close>

theorem C8_failed_precondition_surfaces:
  "getAllItems (demo_store\<lparr>fault := Some FailedPrecondition\<rparr>) (Some ''c1'') price_asc 8 None
     = Inl FailedPrecondition"
  by (simp add: getAllItems_def truthy_def getItemsByCategory_def getDocs_def categoryQuery_def
      demo_store_def)

text \<open>
  Claim C8, amended. The service never sends the store a category-filtered, ordered query: for
  a category it always fetches by category alone and sorts in memory, so on a store that
  answers, with or without the composite index, a category listing returns the slice of the
  in-memory sorted items of the category and no missing-index error arises. The service does
  not handle errors: an error that the store reports for a query it does send,
  failed-precondition included, reaches the caller of \<open>getAllItems\<close> unchanged.
\<close>

theorem C8_missing_index_avoided_not_handled:
  "(truthy categoryId \<and> available st \<longrightarrow>
      (\<exists>page cur.
         getAllItems st categoryId sortBy limitCount lastVisible = Inr (page, cur) \<and>
         page = slice (sortedCategory st (the categoryId) sortBy)
                  (cursorIndex lastVisible (sortedCategory st (the categoryId) sortBy) + 1)
                  (cursorIndex lastVisible (sortedCategory st (the categoryId) sortBy) + 1
                    + limitCount) \<and>
         sorted_wrt (precedes sortBy) page \<and>
         mset (sortedCategory st (the categoryId) sortBy)
           = mset (filter (\<lambda>d. category_id d = the categoryId) (items st)))) \<and>
   (truthy categoryId \<and> fault st = Some e \<longrightarrow>
      getAllItems st categoryId sortBy limitCount lastVisible = Inl e) \<and>
   (\<not> truthy categoryId \<and> 0 < limitCount \<and> fault st = Some e \<longrightarrow>
      getAllItems st categoryId sortBy limitCount lastVisible = Inl e)"
proof (intro conjI impI)
  assume a: "truthy categoryId \<and> available st"
  let ?S = "sortedCategory st (the categoryId) sortBy"
  let ?page = "slice ?S (cursorIndex lastVisible ?S + 1) (cursorIndex lastVisible ?S + 1 + limitCount)"
  have ge: "0 \<le> cursorIndex lastVisible ?S + 1" using cursorIndex_ge[of lastVisible ?S] by simp
  have "sorted_wrt (precedes sortBy) ?page"
    using ge sortedCategory_ordered by (rule slice_sorted_wrt)
  moreover have "\<exists>cur. getAllItems st categoryId sortBy limitCount lastVisible = Inr (?page, cur)"
    using a by (simp add: getAllItems_def getItemsByCategory_eq Let_def)
  ultimately show "\<exists>page cur.
         getAllItems st categoryId sortBy limitCount lastVisible = Inr (page, cur) \<and>
         page = ?page \<and> sorted_wrt (precedes sortBy) page \<and>
         mset ?S = mset (filter (\<lambda>d. category_id d = the categoryId) (items st))"
    using sortedCategory_mset by blast
next
  assume a: "truthy categoryId \<and> fault st = Some e"
  then have "getDocs st (categoryQuery (the categoryId)) = Inl e"
    by (intro getDocs_fault) (simp_all add: categoryQuery_def)
  then show "getAllItems st categoryId sortBy limitCount lastVisible = Inl e"
    using a by (intro getAllItems_propagates) simp
next
  assume a: "\<not> truthy categoryId \<and> 0 < limitCount \<and> fault st = Some e"
  then have "getDocs st (allItemsQuery sortBy limitCount lastVisible) = Inl e"
    by (intro getDocs_fault) (simp_all add: allItemsQuery_def)
  then show "getAllItems st categoryId sortBy limitCount lastVisible = Inl e"
    using a by (intro getAllItems_propagates) simp
qed

theorem C8_missing_index_avoided_not_handled_witness:
  "truthy (Some ''c1'') \<and> available demo_store \<and> \<not> composite_index demo_store \<and>
   (\<exists>page cur.
      getAllItems demo_store (Some ''c1'') price_desc 8 None = Inr (page, cur) \<and>
      sorted_wrt (precedes price_desc) page) \<and>
   fault (demo_store\<lparr>fault := Some Unavailable\<rparr>) = Some Unavailable \<and>
   getAllItems (demo_store\<lparr>fault := Some Unavailable\<rparr>) (Some ''c1'') price_desc 8 None
     = Inl Unavailable"
proof -
  have h: "truthy (Some ''c1'') \<and> available demo_store" "\<not> composite_index demo_store"
    by (simp_all add: truthy_def available_def demo_store_def)
  have f: "truthy (Some ''c1'') \<and> fault (demo_store\<lparr>fault := Some Unavailable\<rparr>) = Some Unavailable"
    by (simp add: truthy_def)
  from C8_missing_index_avoided_not_handled[of "Some ''c1''" demo_store price_desc 8 None] h
  have 1: "\<exists>page cur.
      getAllItems demo_store (Some ''c1'') price_desc 8 None = Inr (page, cur) \<and>
      sorted_wrt (precedes price_desc) page" by blast
  from C8_missing_index_avoided_not_handled
         [of "Some ''c1''" "demo_store\<lparr>fault := Some Unavailable\<rparr>" price_desc 8 None Unavailable] f
  have 2: "getAllItems (demo_store\<lparr>fault := Some Unavailable\<rparr>) (Some ''c1'') price_desc 8 None
             = Inl Unavailable" by blast
  from 1 2 h f show ?thesis by blast
qed

subsection \<open>Both paths of getAllItems yield the pages of the full listing\<close>

lemma distinct_ids_sort_key:
  "distinct (map id_i ds) \<Longrightarrow> distinct (map id_i (sort_key g ds))"
  by (metis distinct_map distinct_sort set_sort)

lemma distinct_sortedCategory:
  assumes "distinct (map id_i (items st))"
  shows "distinct (map id_i (sortedCategory st c sb))"
proof -
  have "distinct (map id_i (filter (\<lambda>d. category_id d = c) (items st)))"
    using assms by (rule distinct_map_filter)
  moreover have "mset (map id_i (sortedCategory st c sb))
               = mset (map id_i (filter (\<lambda>d. category_id d = c) (items st)))"
    using sortedCategory_mset[of st c sb] by (metis mset_map)
  ultimately show ?thesis by (metis mset_eq_imp_distinct_iff)
qed

lemma category_step:
  assumes c: "c \<noteq> []" and av: "available st" and dist: "distinct (map id_i (items st))"
    and pos: "0 < n" and r: "resumes_at (sortedCategory st c sb) cur k"
  shows "getAllItems st (Some c) sb n cur = Inr (page_of (sortedCategory st c sb) n k)"
proof -
  let ?L = "sortedCategory st c sb"
  let ?docs = "sort_key id_i (filter (\<lambda>d. category_id d = c) (items st))"
  have dL: "distinct (map id_i ?L)" using dist by (rule distinct_sortedCategory)
  have ci: "cursorIndex cur ?L + 1 = int k"
  proof (cases cur)
    case None
    then show ?thesis using r by (simp add: resumes_at_def cursorIndex_def)
  next
    case (Some lv)
    then obtain j where j: "j < length ?L" "k = Suc j" "lv = ?L ! j"
      using r by (auto simp: resumes_at_def)
    have "findIndex (\<lambda>x. id_i x = id_i (?L ! j)) ?L = int j"
      using dL j(1) by (rule findIndex_distinct)
    then show ?thesis using Some j by (simp add: cursorIndex_def)
  qed
  let ?p = "take (nat n) (drop k ?L)"
  have sl: "slice ?L (cursorIndex cur ?L + 1) (cursorIndex cur ?L + 1 + n) = ?p"
    using slice_take_drop[of "int k" n ?L] pos by (simp add: ci)
  have fnd: "find (\<lambda>doc. id_i doc = id_i (last ?p)) ?docs = Some (last ?p)" if "?p \<noteq> []"
  proof (rule find_distinct)
    show "distinct (map id_i ?docs)"
      using dist by (intro distinct_ids_sort_key distinct_map_filter)
    have "last ?p \<in> set ?p" using that by (rule last_in_set)
    then have "last ?p \<in> set ?L" by (meson in_set_takeD in_set_dropD)
    then show "last ?p \<in> set ?docs" by (simp add: set_sortedCategory)
  qed
  show ?thesis
    unfolding getAllItems_category[OF c] getItemsByCategory_eq[OF av] Let_def sl page_of_def
    using fnd by simp
qed

lemma strict_sorted_sort_key:
  assumes "distinct (map g ds)"
  shows "sorted_wrt (\<lambda>a b. g a < g b) (sort_key g ds)"
proof -
  have "distinct (map g (sort_key g ds))"
    using assms by (metis mset_eq_imp_distinct_iff mset_map mset_sort)
  then have "sorted_wrt (<) (map g (sort_key g ds))"
    using sorted_sort_key[of g ds] by (simp add: strict_sorted_iff)
  then show ?thesis by (simp add: sorted_wrt_map)
qed

lemma distinct_pos_key:
  assumes "distinct (map id_i ds)"
  shows "distinct (map (\<lambda>d. (f d, id_i d)) ds)"
proof -
  have "inj_on id_i (set ds)" using assms by (simp add: distinct_map)
  then have "inj_on (\<lambda>d. (f d, id_i d)) (set ds)" by (auto simp: inj_on_def)
  moreover have "distinct ds" using assms by (simp add: distinct_map)
  ultimately show ?thesis by (simp add: distinct_map)
qed

lemma ordered_by_strict:
  assumes "distinct (map id_i ds)"
  shows "sorted_wrt (is_after f dir) (ordered_by f dir ds)"
proof -
  have s: "sorted_wrt (\<lambda>a b. (f a, id_i a) < (f b, id_i b)) (sort_key (\<lambda>d. (f d, id_i d)) ds)"
    using distinct_pos_key[OF assms, of f] by (rule strict_sorted_sort_key)
  show ?thesis
  proof (cases dir)
    case Asc
    have "is_after f Asc = (\<lambda>a b. (f a, id_i a) < (f b, id_i b))"
      by (intro ext) (simp add: is_after_def)
    then show ?thesis using s Asc by (simp add: ordered_by_def)
  next
    case Desc
    have "is_after f Desc = (\<lambda>a b. (f b, id_i b) < (f a, id_i a))"
      by (intro ext) (simp add: is_after_def)
    then show ?thesis using s Desc by (simp add: ordered_by_def sorted_wrt_rev)
  qed
qed

lemma is_after_asym: "is_after f dir a b \<Longrightarrow> \<not> is_after f dir b a"
  by (cases dir) (auto simp: is_after_def)

lemma run_ordered_page:
  assumes dist: "distinct (map id_i ds)" and r: "resumes_at (ordered_by f dir ds) cur k"
  shows "run_ordered f dir cur (Some n) ds = take (nat n) (drop k (ordered_by f dir ds))"
proof -
  let ?L = "ordered_by f dir ds"
  have "resume_after f dir cur ?L = drop k ?L"
  proof (cases cur)
    case None
    then show ?thesis using r by (simp add: resumes_at_def resume_after_def)
  next
    case (Some lv)
    then obtain j where j: "j < length ?L" "k = Suc j" "lv = ?L ! j"
      using r by (auto simp: resumes_at_def)
    have "filter (is_after f dir (?L ! j)) ?L = drop (Suc j) ?L"
      using ordered_by_strict[OF dist] is_after_asym j(1)
      by (intro filter_after_sorted_wrt) blast+
    then show ?thesis using Some j by (simp add: resume_after_def)
  qed
  then show ?thesis by (simp add: run_ordered_def take_limit_def)
qed

lemma run_query_allItems:
  "run_query (allItemsQuery sb n cur) ds =
     (case sb of price_asc \<Rightarrow> run_ordered price Asc cur (Some n) ds
               | price_desc \<Rightarrow> run_ordered price Desc cur (Some n) ds
               | newest \<Rightarrow> run_ordered createdAt Desc cur (Some n) ds)"
proof -
  have "order_by (allItemsQuery sb n cur) = Some (order_for sb)"
       "limit_count (allItemsQuery sb n cur) = Some n"
       "start_after (allItemsQuery sb n cur) = cur"
    by (simp_all add: allItemsQuery_def)
  then show ?thesis
    by (cases sb) (simp_all add: run_query_def matches_allItemsQuery)
qed

lemma plain_step:
  assumes nt: "\<not> truthy cat" and av: "available st" and dist: "distinct (map id_i (items st))"
    and pos: "0 < n" and r: "resumes_at (orderedAll sb (items st)) cur k"
  shows "getAllItems st cat sb n cur = Inr (page_of (orderedAll sb (items st)) n k)"
proof -
  let ?q = "allItemsQuery sb n cur"
  have q: "limit_count ?q = Some n" "start_after ?q = cur" "order_by ?q = Some (order_for sb)"
    by (simp_all add: allItemsQuery_def)
  have nci: "\<not> needs_composite_index ?q"
    by (simp add: needs_composite_index_def allItemsQuery_def)
  have docs: "getDocs st ?q = Inr (run_query ?q (items st))"
    using av pos q nci by (simp add: available_def getDocs_def)
  have "run_query ?q (items st) = take (nat n) (drop k (orderedAll sb (items st)))"
  proof (cases sb)
    case price_asc
    then show ?thesis
      using run_ordered_page[OF dist, of price Asc cur k n] r
      by (simp add: run_query_allItems orderedAll_def)
  next
    case price_desc
    then show ?thesis
      using run_ordered_page[OF dist, of price Desc cur k n] r
      by (simp add: run_query_allItems orderedAll_def)
  next
    case newest
    then show ?thesis
      using run_ordered_page[OF dist, of createdAt Desc cur k n] r
      by (simp add: run_query_allItems orderedAll_def)
  qed
  then show ?thesis
    by (simp add: getAllItems_plain[OF nt] docs page_of_def)
qed

lemma listing_step:
  assumes "cat \<noteq> Some []" and "available st" and "distinct (map id_i (items st))"
    and "0 < n" and "resumes_at (fullListing st cat sb) cur k"
  shows "getAllItems st cat sb n cur = Inr (page_of (fullListing st cat sb) n k)"
proof (cases "truthy cat")
  case True
  then obtain c where c: "cat = Some c" "c \<noteq> []" by (auto simp: truthy_def split: option.splits)
  then show ?thesis using assms category_step[of c st n sb cur k] by (simp add: fullListing_def truthy_def)
next
  case False
  then show ?thesis using assms plain_step[OF False, of st n sb cur k] by (simp add: fullListing_def)
qed

lemma set_ordered_by: "set (ordered_by f dir ds) = set ds"
  by (cases dir) (simp_all add: ordered_by_def)

lemma length_ordered_by: "length (ordered_by f dir ds) = length ds"
  by (cases dir) (simp_all add: ordered_by_def)

lemma set_fullListing:
  "cat \<noteq> Some [] \<Longrightarrow>
   set (fullListing st cat sb) = {d \<in> set (items st). \<forall>c. cat = Some c \<longrightarrow> category_id d = c}"
  by (cases cat; cases sb)
     (auto simp: fullListing_def truthy_def set_sortedCategory orderedAll_def set_ordered_by)

lemma length_fullListing: "length (fullListing st cat sb) \<le> length (items st)"
proof (cases "truthy cat")
  case True
  have "length (sortedCategory st (the cat) sb)
        = length (filter (\<lambda>d. category_id d = the cat) (items st))"
    using sortedCategory_mset[of st "the cat" sb] by (rule mset_eq_length)
  then show ?thesis using True by (simp add: fullListing_def)
next
  case False
  then show ?thesis by (cases sb) (simp_all add: fullListing_def orderedAll_def length_ordered_by)
qed

lemma distinct_ordered_by:
  "distinct (map id_i ds) \<Longrightarrow> distinct (map id_i (ordered_by f dir ds))"
  using distinct_ids_sort_key[of ds "\<lambda>d. (f d, id_i d)"]
  by (cases dir) (simp_all add: ordered_by_def rev_map[symmetric])

lemma distinct_fullListing:
  assumes "distinct (map id_i (items st))"
  shows "distinct (map id_i (fullListing st cat sb))"
proof (cases "truthy cat")
  case True
  then show ?thesis using distinct_sortedCategory[OF assms] by (simp add: fullListing_def)
next
  case False
  then show ?thesis
    using assms by (cases sb) (simp_all add: fullListing_def orderedAll_def distinct_ordered_by)
qed

subsection \<open>Concatenating the pages\<close>

text \<open>
  Claim C2. Over a store whose items have distinct ids, for a valid category id (absent, or
  present and non-empty), any sort order and any positive page size, calling \<open>getAllItems\<close>
  again and again with the cursor of the previous call until no cursor comes back ends, and
  the pages concatenated are the same list, in the same order, as a single fetch with a page
  size that exceeds the store; no item occurs twice and the items are exactly the matching
  ones.
\<close>

theorem C2_pages_concatenate:
  assumes "distinct (map id_i (items st))" and "available st" and "0 < n"
    and "cat \<noteq> Some []" and "length (items st) < fuel"
  shows "concat_pages fuel st cat sb n None = Some (Inr (fullListing st cat sb)) \<and>
         (\<exists>cur. getAllItems st cat sb (int (length (items st)) + 1) None
                  = Inr (fullListing st cat sb, cur)) \<and>
         distinct (map id_i (fullListing st cat sb)) \<and>
         set (fullListing st cat sb)
           = {d \<in> set (items st). \<forall>c. cat = Some c \<longrightarrow> category_id d = c}"
proof -
  let ?L = "fullListing st cat sb"
  have r0: "resumes_at ?L None 0" by (simp add: resumes_at_def)
  have len: "length ?L - 0 < fuel" using length_fullListing[of st cat sb] assms(5) by simp
  have "concat_pages fuel st cat sb n None = Some (Inr (drop 0 ?L))"
    using listing_step[OF assms(4,2,1,3)] assms(3) r0 len by (rule concat_pages_generic)
  then have pages: "concat_pages fuel st cat sb n None = Some (Inr ?L)" by simp
  have "getAllItems st cat sb (int (length (items st)) + 1) None
        = Inr (page_of ?L (int (length (items st)) + 1) 0)"
    using assms(4,2,1) _ r0 by (rule listing_step) simp
  moreover have "take (nat (int (length (items st)) + 1)) ?L = ?L"
    using length_fullListing[of st cat sb] by simp
  ultimately have single: "\<exists>cur. getAllItems st cat sb (int (length (items st)) + 1) None = Inr (?L, cur)"
    by (simp add: page_of_def)
  show ?thesis
    using pages single distinct_fullListing[OF assms(1)] set_fullListing[OF assms(4)] by simp
qed

theorem C2_pages_concatenate_witness:
  "distinct (map id_i (items demo_store)) \<and> available demo_store \<and> (0::int) < 1 \<and>
   Some ''c1'' \<noteq> Some [] \<and> length (items demo_store) < 4 \<and>
   concat_pages 4 demo_store (Some ''c1'') price_asc 1 None
     = Some (Inr (fullListing demo_store (Some ''c1'') price_asc)) \<and>
   (\<exists>cur. getAllItems demo_store (Some ''c1'') price_asc (int (length (items demo_store)) + 1) None
            = Inr (fullListing demo_store (Some ''c1'') price_asc, cur)) \<and>
   distinct (map id_i (fullListing demo_store (Some ''c1'') price_asc)) \<and>
   set (fullListing demo_store (Some ''c1'') price_asc)
     = {d \<in> set (items demo_store). \<forall>c. Some ''c1'' = Some c \<longrightarrow> category_id d = c}"
proof -
  have h1: "distinct (map id_i (items demo_store))" by (simp add: demo_store_def demo_item_def)
  have h2: "available demo_store" by (simp add: available_def demo_store_def)
  have h3: "(0::int) < 1" by simp
  have h4: "Some ''c1'' \<noteq> Some []" by simp
  have h5: "length (items demo_store) < 4" by (simp add: demo_store_def)
  from C2_pages_concatenate[OF h1 h2 h3 h4 h5, of price_asc] h1 h2 h3 h4 h5
  show ?thesis by blast
qed

lemma getCartItems_filter:
  assumes "available st"
  shows "getCartItems st u = Inr (sort_key id_c (filter (\<lambda>d. user_id d = u \<and> \<not> is_done d) (checkouts st)))"
  using assms by (simp add: getCartItems_def available_def getDocs_checkouts_def)

subsection \<open>Cart line items\<close>

text \<open>
  Claim C5. If user \<open>u\<close> has no active line item for item \<open>i\<close>, then after
  \<open>addToCart u i q\<close> the active cart of \<open>u\<close> (\<open>getCartItems\<close>) holds exactly one line item
  with \<open>item_id = i\<close>, and that line has quantity \<open>q\<close>, step \<open>added_to_cart\<close>,
  \<open>is_done = false\<close>, an empty reason, and \<open>createdAt\<close> and \<open>updatedAt\<close> set to the clock
  readings taken when it was created. (The new document id is one the store has not used.)
\<close>

theorem C5_add_then_active_cart:
  assumes av: "available st"
    and fresh: "newId \<notin> set (map id_c (checkouts st))"
    and none: "\<forall>c\<in>set (checkouts st). user_id c = u \<and> \<not> is_done c \<longrightarrow> item_id c \<noteq> i"
  shows "\<exists>st'. addToCart st newId now1 now2 u i q = Inr (st', newId) \<and>
           (\<exists>cart. getCartItems st' u = Inr cart \<and>
              filter (\<lambda>c. item_id c = i) cart =
                [\<lparr>id_c = newId, user_id = u, item_id = i, quantity = q, is_done = False,
                  last_step = ''added_to_cart'', reason = [], createdAt_c = now1,
                  updatedAt = now2\<rparr>])"
proof -
  let ?new = "\<lparr>id_c = newId, user_id = u, item_id = i, quantity = q, is_done = False,
                last_step = ''added_to_cart'', reason = [], createdAt_c = now1, updatedAt = now2\<rparr>"
  let ?st' = "st\<lparr>checkouts := checkouts st @ [?new]\<rparr>"
  have keep: "filter (\<lambda>d. id_c d \<noteq> newId) (checkouts st) = checkouts st"
    using fresh by (auto simp: filter_id_conv)
  have add: "addToCart st newId now1 now2 u i q = Inr (?st', newId)"
    using av by (simp add: addToCart_def available_def addDoc_def keep)
  have av': "available ?st'" using av by (simp add: available_def)
  have old: "filter (\<lambda>c. item_id c = i) (filter (\<lambda>d. user_id d = u \<and> \<not> is_done d) (checkouts st)) = []"
    using none by (auto simp: filter_empty_conv)
  have "filter (\<lambda>c. item_id c = i)
          (sort_key id_c (filter (\<lambda>d. user_id d = u \<and> \<not> is_done d) (checkouts ?st')))
        = sort_key id_c (filter (\<lambda>c. item_id c = i)
            (filter (\<lambda>d. user_id d = u \<and> \<not> is_done d) (checkouts ?st')))"
    by (rule filter_sort)
  also have "\<dots> = sort_key id_c [?new]" using old by simp
  also have "\<dots> = [?new]" by simp
  finally show ?thesis
    using add getCartItems_filter[OF av', of u] by simp
qed

theorem C5_add_then_active_cart_witness:
  "available demo_cart \<and> ''k1'' \<notin> set (map id_c (checkouts demo_cart)) \<and>
   list_all (\<lambda>c. \<not> (user_id c = ''u'' \<and> \<not> is_done c \<and> item_id c = ''b'')) (checkouts demo_cart) \<and>
   (\<exists>st'. addToCart demo_cart ''k1'' 7 7 ''u'' ''b'' 2 = Inr (st', ''k1'') \<and>
      (\<exists>cart. getCartItems st' ''u'' = Inr cart \<and>
         filter (\<lambda>c. item_id c = ''b'') cart =
           [\<lparr>id_c = ''k1'', user_id = ''u'', item_id = ''b'', quantity = 2, is_done = False,
             last_step = ''added_to_cart'', reason = [], createdAt_c = 7, updatedAt = 7\<rparr>]))"
proof -
  have h1: "available demo_cart" by (simp add: available_def demo_cart_def demo_store_def)
  have h2: "''k1'' \<notin> set (map id_c (checkouts demo_cart))"
    by (simp add: demo_cart_def demo_line_def)
  have h3: "\<forall>c\<in>set (checkouts demo_cart). user_id c = ''u'' \<and> \<not> is_done c \<longrightarrow> item_id c \<noteq> ''b''"
    by (simp add: demo_cart_def demo_line_def)
  have h3': "list_all (\<lambda>c. \<not> (user_id c = ''u'' \<and> \<not> is_done c \<and> item_id c = ''b''))
               (checkouts demo_cart)"
    by (simp add: demo_cart_def demo_line_def)
  from C5_add_then_active_cart[OF h1 h2 h3, of 7 7 2] h1 h2 h3' show ?thesis by blast
qed

subsection \<open>Updates of one line item\<close>

lemma updateDoc_Inr:
  assumes "updateDoc st k upd = Inr st'"
  shows "st' = st\<lparr>checkouts := map (\<lambda>d. if id_c d = k then upd d else d) (checkouts st)\<rparr>"
  using assms by (simp add: updateDoc_def split: if_splits option.splits)

text \<open>
  Claim C9. A successful \<open>updateCartItemQuantity\<close> writes only the \<open>quantity\<close> and
  \<open>updatedAt\<close> fields of the checkout record with the given id: its other fields, every
  other checkout record, the items and the rest of the store are as before. (A failed call
  returns the error and no new store.)
\<close>

theorem C9_quantity_update_frame:
  assumes "updateCartItemQuantity st now k q = Inr st'"
  shows "items st' = items st \<and> available st' = available st \<and>
         composite_index st' = composite_index st \<and>
         length (checkouts st') = length (checkouts st) \<and>
         (\<forall>n<length (checkouts st).
            (id_c (checkouts st ! n) \<noteq> k \<longrightarrow> checkouts st' ! n = checkouts st ! n) \<and>
            (id_c (checkouts st ! n) = k \<longrightarrow>
               checkouts st' ! n = (checkouts st ! n)\<lparr>quantity := q, updatedAt := now\<rparr> \<and>
               id_c (checkouts st' ! n) = id_c (checkouts st ! n) \<and>
               user_id (checkouts st' ! n) = user_id (checkouts st ! n) \<and>
               item_id (checkouts st' ! n) = item_id (checkouts st ! n) \<and>
               is_done (checkouts st' ! n) = is_done (checkouts st ! n) \<and>
               last_step (checkouts st' ! n) = last_step (checkouts st ! n) \<and>
               reason (checkouts st' ! n) = reason (checkouts st ! n) \<and>
               createdAt_c (checkouts st' ! n) = createdAt_c (checkouts st ! n) \<and>
               quantity (checkouts st' ! n) = q \<and> updatedAt (checkouts st' ! n) = now))"
proof -
  have "st' = st\<lparr>checkouts := map (\<lambda>d. if id_c d = k then d\<lparr>quantity := q, updatedAt := now\<rparr> else d)
                                   (checkouts st)\<rparr>"
    using assms unfolding updateCartItemQuantity_def by (rule updateDoc_Inr)
  then show ?thesis by (simp add: available_def)
qed

theorem C9_quantity_update_frame_witness:
  "updateCartItemQuantity demo_cart 9 ''k0'' 5
     = Inr (demo_cart\<lparr>checkouts := [demo_line\<lparr>quantity := 5, updatedAt := 9\<rparr>]\<rparr>) \<and>
   items (demo_cart\<lparr>checkouts := [demo_line\<lparr>quantity := 5, updatedAt := 9\<rparr>]\<rparr>) = items demo_cart \<and>
   length (checkouts (demo_cart\<lparr>checkouts := [demo_line\<lparr>quantity := 5, updatedAt := 9\<rparr>]\<rparr>))
     = length (checkouts demo_cart)"
proof -
  have h: "updateCartItemQuantity demo_cart 9 ''k0'' 5
             = Inr (demo_cart\<lparr>checkouts := [demo_line\<lparr>quantity := 5, updatedAt := 9\<rparr>]\<rparr>)"
    by (simp add: updateCartItemQuantity_def available_def updateDoc_def demo_cart_def demo_line_def demo_store_def)
  from C9_quantity_update_frame[OF h] h show ?thesis by blast
qed

lemma updateCartItemQuantity_errors:
  "updateCartItemQuantity st now k q = Inl e \<Longrightarrow> fault st = Some e \<or> e = NotFound"
  by (auto simp: updateCartItemQuantity_def updateDoc_def split: if_splits option.splits)

subsection \<open>The checkout pipeline\<close>

text \<open>
  Claim C4 as written fails: \<open>updateCheckoutStep\<close> writes whatever step it is given on
  whatever record. A completed line sent back to \<open>added_to_cart\<close> keeps \<open>is_done = true\<close>.
\<close>

theorem C4_step_moved_back:
  "getDoc_checkout
     (run_ops demo_store
        [AddToCart ''k1'' 1 1 ''u'' ''a'' 2, CompleteCheckout 2 ''k1'',
         UpdateCheckoutStep 3 ''k1'' ''added_to_cart''])
     ''k1''
   = Some \<lparr>id_c = ''k1'', user_id = ''u'', item_id = ''a'', quantity = 2, is_done = True,
           last_step = ''added_to_cart'', reason = [], createdAt_c = 1, updatedAt = 3\<rparr>"
  by (simp add: getDoc_checkout_def or_unchanged_def addToCart_def available_def addDoc_def completeCheckout_def
      updateCheckoutStep_def available_def updateDoc_def demo_store_def)

lemma cart_inv_alt:
  "cart_inv st \<longleftrightarrow> distinct (map id_c (checkouts st)) \<and> (\<forall>c\<in>set (checkouts st). line_ok c)"
  by (simp add: cart_inv_def line_ok_def list_all_iff)

lemma find_map_same_id:
  assumes "\<And>d. id_c (g d) = id_c d"
  shows "find (\<lambda>d. id_c d = k) (map g cs) = map_option g (find (\<lambda>d. id_c d = k) cs)"
  by (induction cs) (simp_all add: assms)

lemma find_append_Some:
  "find P xs = Some x \<Longrightarrow> find P (xs @ ys) = Some x"
  by (induction xs) (auto split: if_splits)

lemma map_ids_update:
  assumes "\<And>d. id_c (upd d) = id_c d"
  shows "map id_c (map (\<lambda>d. if id_c d = k then upd d else d) cs) = map id_c cs"
  by (induction cs) (simp_all add: assms)

lemma step_rank_simps:
  "step_rank ''added_to_cart'' = Some 0" "step_rank ''payment'' = Some 1"
  "step_rank ''completed'' = Some 2"
  by (simp_all add: step_rank_def)

lemma step_rank_le_2: "step_rank s = Some r \<Longrightarrow> r \<le> 2"
  by (auto simp: step_rank_def split: if_splits)

text \<open>One update request: if the update keeps the id and maps acceptable lines to acceptable
  lines without lowering the rank, the invariant and the ranks are kept.\<close>

lemma update_preserves:
  assumes inv: "cart_inv st"
    and idk: "\<And>d. id_c (upd d) = id_c d"
    and ok: "\<And>d. d \<in> set (checkouts st) \<Longrightarrow> id_c d = k \<Longrightarrow> line_ok d \<Longrightarrow>
               line_ok (upd d) \<and> (\<forall>r. step_rank (last_step d) = Some r \<longrightarrow>
                  (\<exists>r'. step_rank (last_step (upd d)) = Some r' \<and> r \<le> r'))"
  shows "cart_inv (or_unchanged st (updateDoc st k upd)) \<and>
         (\<forall>k' r. rank_of st k' = Some r \<longrightarrow>
            (\<exists>r'. rank_of (or_unchanged st (updateDoc st k upd)) k' = Some r' \<and> r \<le> r'))"
proof (cases "updateDoc st k upd")
  case (Inl e)
  then show ?thesis using inv by (auto simp: or_unchanged_def)
next
  case (Inr st')
  let ?g = "\<lambda>d. if id_c d = k then upd d else d"
  have st': "st' = st\<lparr>checkouts := map ?g (checkouts st)\<rparr>"
    using Inr by (rule updateDoc_Inr)
  have gid: "id_c (?g d) = id_c d" for d by (simp add: idk)
  have ids: "map id_c (checkouts st') = map id_c (checkouts st)"
    unfolding st' using idk by (simp add: map_ids_update)
  have lines: "\<forall>c\<in>set (checkouts st'). line_ok c"
    unfolding st' using inv ok by (auto simp: cart_inv_alt)
  have inv': "cart_inv st'" using inv ids lines by (simp add: cart_inv_alt)
  have ranks: "\<exists>r'. rank_of st' k' = Some r' \<and> r \<le> r'" if r: "rank_of st k' = Some r" for k' r
  proof -
    from r obtain d where d: "find (\<lambda>d. id_c d = k') (checkouts st) = Some d"
      "step_rank (last_step d) = Some r"
      by (auto simp: rank_of_def getDoc_checkout_def split: option.splits)
    then have dm: "d \<in> set (checkouts st)" "id_c d = k'"
      by (auto simp: find_Some_iff)
    have f': "find (\<lambda>d. id_c d = k') (checkouts st') = Some (?g d)"
      unfolding st' using find_map_same_id[of ?g k' "checkouts st"] gid d(1) by simp
    show ?thesis
    proof (cases "k' = k")
      case True
      have "line_ok d" using inv dm by (simp add: cart_inv_alt)
      then obtain r' where "step_rank (last_step (upd d)) = Some r'" "r \<le> r'"
        using ok[OF dm(1)] dm(2) True d(2) by blast
      then show ?thesis using f' True dm by (simp add: rank_of_def getDoc_checkout_def)
    next
      case False
      then show ?thesis using f' dm d(2) by (simp add: rank_of_def getDoc_checkout_def)
    qed
  qed
  show ?thesis using Inr inv' ranks by (simp add: or_unchanged_def)
qed

lemma add_preserves:
  assumes inv: "cart_inv st" and fresh: "newId \<notin> set (map id_c (checkouts st))"
  shows "cart_inv (apply_op st (AddToCart newId now1 now2 u i q)) \<and>
         (\<forall>k' r. rank_of st k' = Some r \<longrightarrow>
            (\<exists>r'. rank_of (apply_op st (AddToCart newId now1 now2 u i q)) k' = Some r' \<and> r \<le> r'))"
proof (cases "available st")
  case False
  then show ?thesis using inv by (auto simp: addToCart_def available_def addDoc_def)
next
  case True
  let ?new = "\<lparr>id_c = newId, user_id = u, item_id = i, quantity = q, is_done = False,
                last_step = ''added_to_cart'', reason = [], createdAt_c = now1, updatedAt = now2\<rparr>"
  have keep: "filter (\<lambda>d. id_c d \<noteq> newId) (checkouts st) = checkouts st"
    using fresh by (auto simp: filter_id_conv)
  have ap: "apply_op st (AddToCart newId now1 now2 u i q) = st\<lparr>checkouts := checkouts st @ [?new]\<rparr>"
    using True by (simp add: addToCart_def available_def addDoc_def keep)
  have "line_ok ?new" by (simp add: line_ok_def step_rank_def)
  then have inv': "cart_inv (st\<lparr>checkouts := checkouts st @ [?new]\<rparr>)"
    using inv fresh by (auto simp: cart_inv_alt)
  have "rank_of (st\<lparr>checkouts := checkouts st @ [?new]\<rparr>) k' = Some r" if "rank_of st k' = Some r" for k' r
    using that by (auto simp: rank_of_def getDoc_checkout_def find_append_Some split: option.splits)
  then show ?thesis unfolding ap using inv' by blast
qed

lemma apply_op_preserves:
  assumes inv: "cart_inv st" and iss: "issued_by_pages st opn"
  shows "cart_inv (apply_op st opn) \<and>
         (\<forall>k r. rank_of st k = Some r \<longrightarrow> (\<exists>r'. rank_of (apply_op st opn) k = Some r' \<and> r \<le> r'))"
proof (cases opn)
  case (AddToCart newId now1 now2 u i q)
  then show ?thesis using add_preserves[OF inv] iss by simp
next
  case (UpdateCartItemQuantity now k q)
  have "cart_inv (or_unchanged st (updateDoc st k (\<lambda>d. d\<lparr>quantity := q, updatedAt := now\<rparr>))) \<and>
        (\<forall>k' r. rank_of st k' = Some r \<longrightarrow>
           (\<exists>r'. rank_of (or_unchanged st (updateDoc st k (\<lambda>d. d\<lparr>quantity := q, updatedAt := now\<rparr>))) k'
                  = Some r' \<and> r \<le> r'))"
    by (rule update_preserves[OF inv]) (simp_all add: line_ok_def)
  then show ?thesis using UpdateCartItemQuantity by (simp add: updateCartItemQuantity_def)
next
  case (UpdateCheckoutStep now k s)
  then have s: "s = ''payment''" and nd: "\<forall>c\<in>set (checkouts st). id_c c = k \<longrightarrow> \<not> is_done c"
    using iss by (simp_all add: list_all_iff)
  have "cart_inv (or_unchanged st (updateDoc st k (\<lambda>d. d\<lparr>last_step := ''payment'', updatedAt := now\<rparr>))) \<and>
        (\<forall>k' r. rank_of st k' = Some r \<longrightarrow>
           (\<exists>r'. rank_of (or_unchanged st (updateDoc st k (\<lambda>d. d\<lparr>last_step := ''payment'', updatedAt := now\<rparr>))) k'
                  = Some r' \<and> r \<le> r'))"
  proof (rule update_preserves[OF inv])
    fix d assume d: "d \<in> set (checkouts st)" "id_c d = k" "line_ok d"
    then have "\<not> is_done d" using nd by simp
    then have "last_step d \<noteq> ''completed''" using d(3) by (simp add: line_ok_def)
    then have "\<forall>r. step_rank (last_step d) = Some r \<longrightarrow> r \<le> 1"
      by (auto simp: step_rank_def split: if_splits)
    then show "line_ok (d\<lparr>last_step := ''payment'', updatedAt := now\<rparr>) \<and>
          (\<forall>r. step_rank (last_step d) = Some r \<longrightarrow>
             (\<exists>r'. step_rank (last_step (d\<lparr>last_step := ''payment'', updatedAt := now\<rparr>)) = Some r' \<and> r \<le> r'))"
      using \<open>\<not> is_done d\<close> by (simp add: line_ok_def step_rank_simps)
  qed simp
  then show ?thesis using UpdateCheckoutStep s by (simp add: updateCheckoutStep_def)
next
  case (CompleteCheckout now k)
  have "cart_inv (or_unchanged st (updateDoc st k (\<lambda>d. d\<lparr>is_done := True, last_step := ''completed'', updatedAt := now\<rparr>))) \<and>
        (\<forall>k' r. rank_of st k' = Some r \<longrightarrow>
           (\<exists>r'. rank_of (or_unchanged st (updateDoc st k (\<lambda>d. d\<lparr>is_done := True, last_step := ''completed'', updatedAt := now\<rparr>))) k'
                  = Some r' \<and> r \<le> r'))"
  proof (rule update_preserves[OF inv])
    fix d assume d: "d \<in> set (checkouts st)" "id_c d = k" "line_ok d"
    show "line_ok (d\<lparr>is_done := True, last_step := ''completed'', updatedAt := now\<rparr>) \<and>
          (\<forall>r. step_rank (last_step d) = Some r \<longrightarrow>
             (\<exists>r'. step_rank (last_step (d\<lparr>is_done := True, last_step := ''completed'', updatedAt := now\<rparr>)) = Some r' \<and> r \<le> r'))"
      using step_rank_le_2 by (simp add: line_ok_def step_rank_simps)
  qed simp
  then show ?thesis using CompleteCheckout by (simp add: completeCheckout_def)
qed

lemma run_ops_preserves:
  assumes "cart_inv st" and "all_issued_by_pages st ops"
  shows "cart_inv (run_ops st ops) \<and>
         (\<forall>c\<in>set (checkouts (run_ops st ops)). is_done c \<longrightarrow> last_step c = ''completed'') \<and>
         (\<forall>k r. rank_of st k = Some r \<longrightarrow>
            (\<exists>r'. rank_of (run_ops st ops) k = Some r' \<and> r \<le> r'))"
  using assms
proof (induction ops arbitrary: st)
  case Nil
  then show ?case by (auto simp: cart_inv_alt line_ok_def)
next
  case (Cons opn ops)
  from Cons.prems have iss: "issued_by_pages st opn" and rest: "all_issued_by_pages (apply_op st opn) ops"
    by simp_all
  from apply_op_preserves[OF Cons.prems(1) iss]
  have inv1: "cart_inv (apply_op st opn)"
    and mono1: "\<forall>k r. rank_of st k = Some r \<longrightarrow> (\<exists>r'. rank_of (apply_op st opn) k = Some r' \<and> r \<le> r')"
    by simp_all
  from Cons.IH[OF inv1 rest]
  have inv2: "cart_inv (run_ops (apply_op st opn) ops)"
    and done2: "\<forall>c\<in>set (checkouts (run_ops (apply_op st opn) ops)). is_done c \<longrightarrow> last_step c = ''completed''"
    and mono2: "\<forall>k r. rank_of (apply_op st opn) k = Some r \<longrightarrow>
                 (\<exists>r'. rank_of (run_ops (apply_op st opn) ops) k = Some r' \<and> r \<le> r')"
    by simp_all
  have "\<exists>r'. rank_of (run_ops (apply_op st opn) ops) k = Some r' \<and> r \<le> r'"
    if "rank_of st k = Some r" for k r
  proof -
    from mono1 that obtain r1 where r1: "rank_of (apply_op st opn) k = Some r1" "r \<le> r1" by blast
    from mono2 r1(1) obtain r2 where "rank_of (run_ops (apply_op st opn) ops) k = Some r2" "r1 \<le> r2"
      by blast
    then show ?thesis using r1(2) by auto
  qed
  then show ?case using inv2 done2 by simp
qed

lemma run_ops_append: "run_ops st (ops1 @ ops2) = run_ops (run_ops st ops1) ops2"
  by (induction ops1 arbitrary: st) simp_all

lemma all_issued_by_pages_append:
  "all_issued_by_pages st (ops1 @ ops2) \<longleftrightarrow>
     all_issued_by_pages st ops1 \<and> all_issued_by_pages (run_ops st ops1) ops2"
  by (induction ops1 arbitrary: st) simp_all

text \<open>
  Claim C4, amended. Starting from a store whose line items are all at a step of the pipeline
  with \<open>is_done\<close> set exactly at \<open>completed\<close> (as every line created by \<open>addToCart\<close> is), any
  sequence of \<open>addToCart\<close>, \<open>updateCartItemQuantity\<close>, \<open>updateCheckoutStep\<close> and
  \<open>completeCheckout\<close> requests in which \<open>updateCheckoutStep\<close> is called as the cart page
  calls it, with the step \<open>payment\<close> on a line that is not done, keeps that property: \<open>is_done\<close>
  is true only when \<open>last_step = completed\<close>, and between any two points of the sequence the
  step of every line only moves forward along added_to_cart, payment, completed.
\<close>

theorem C4_steps_only_advance:
  assumes "cart_inv st" and "all_issued_by_pages st (ops1 @ ops2)"
  shows "cart_inv (run_ops st (ops1 @ ops2)) \<and>
         (\<forall>c\<in>set (checkouts (run_ops st (ops1 @ ops2))). is_done c \<longrightarrow> last_step c = ''completed'') \<and>
         (\<forall>k r. rank_of (run_ops st ops1) k = Some r \<longrightarrow>
            (\<exists>r'. rank_of (run_ops st (ops1 @ ops2)) k = Some r' \<and> r \<le> r'))"
proof -
  from assms(2) have i1: "all_issued_by_pages st ops1"
    and i2: "all_issued_by_pages (run_ops st ops1) ops2"
    by (simp_all add: all_issued_by_pages_append)
  have inv1: "cart_inv (run_ops st ops1)"
    using run_ops_preserves[OF assms(1) i1] by simp
  show ?thesis
    using run_ops_preserves[OF inv1 i2] by (simp add: run_ops_append)
qed

theorem C4_steps_only_advance_witness:
  "cart_inv demo_cart \<and>
   all_issued_by_pages demo_cart
     ([AddToCart ''k1'' 2 2 ''u'' ''b'' 1, UpdateCheckoutStep 3 ''k1'' ''payment'']
      @ [UpdateCartItemQuantity 4 ''k0'' 3, CompleteCheckout 5 ''k1'']) \<and>
   rank_of (run_ops demo_cart
              [AddToCart ''k1'' 2 2 ''u'' ''b'' 1, UpdateCheckoutStep 3 ''k1'' ''payment''])
      ''k1'' = Some 1 \<and>
   (\<exists>r'. rank_of (run_ops demo_cart
             ([AddToCart ''k1'' 2 2 ''u'' ''b'' 1, UpdateCheckoutStep 3 ''k1'' ''payment'']
              @ [UpdateCartItemQuantity 4 ''k0'' 3, CompleteCheckout 5 ''k1''])) ''k1'' = Some r'
         \<and> 1 \<le> r') \<and>
   cart_inv (run_ops demo_cart
             ([AddToCart ''k1'' 2 2 ''u'' ''b'' 1, UpdateCheckoutStep 3 ''k1'' ''payment'']
              @ [UpdateCartItemQuantity 4 ''k0'' 3, CompleteCheckout 5 ''k1'']))"
proof -
  let ?ops1 = "[AddToCart ''k1'' 2 2 ''u'' ''b'' 1, UpdateCheckoutStep 3 ''k1'' ''payment'']"
  let ?ops2 = "[UpdateCartItemQuantity 4 ''k0'' 3, CompleteCheckout 5 ''k1'']"
  have h1: "cart_inv demo_cart"
    by (simp add: cart_inv_def demo_cart_def demo_line_def step_rank_def)
  have h2: "all_issued_by_pages demo_cart (?ops1 @ ?ops2)"
    by (simp add: demo_cart_def demo_line_def demo_store_def or_unchanged_def addToCart_def
        available_def addDoc_def updateCartItemQuantity_def updateCheckoutStep_def available_def updateDoc_def)
  have h3: "rank_of (run_ops demo_cart ?ops1) ''k1'' = Some 1"
    by (simp add: rank_of_def getDoc_checkout_def demo_cart_def demo_line_def demo_store_def
        step_rank_def or_unchanged_def addToCart_def available_def addDoc_def updateCheckoutStep_def
        available_def updateDoc_def)
  from C4_steps_only_advance[OF h1 h2] h1 h2 h3 show ?thesis by blast
qed

subsection \<open>Byte order of names\<close>

lemma uf8ff_less_max: "uf8ff < max_codepoint"
  by (simp add: uf8ff_def max_codepoint_def)

lemma append_less_append: "xs @ ys < xs @ zs \<longleftrightarrow> ys < (zs :: 'a::linorder list)"
  by (induction xs) simp_all

lemma le_append_self: "xs \<le> xs @ (ys :: 'a::linorder list)"
  by (induction xs) simp_all

lemma greater_last_byte:
  assumes "a < (b :: 'a::linorder)"
  shows "(q @ [a]) @ sentinel < q @ b # rest"
  using assms by (induction q) simp_all

lemma matches_searchQueryOf: "matches (searchQueryOf p n) = in_search_range p"
  by (intro ext) (simp add: matches_def searchQueryOf_def in_search_range_def)

lemma searchItems_eq:
  assumes "available st" and "0 < n"
  shows "searchItems st p n =
           Inr (take (nat n) (sort_key (\<lambda>d. (name d, id_i d)) (filter (in_search_range p) (items st))))"
proof -
  let ?q = "searchQueryOf p n"
  have q: "limit_count ?q = Some n" "start_after ?q = None" "order_by ?q = Some (ByName, Asc)"
          "where_category_id ?q = None"
    by (simp_all add: searchQueryOf_def)
  show ?thesis
    using assms
    by (simp add: searchItems_def available_def getDocs_def q needs_composite_index_def run_query_def
        run_ordered_def take_limit_def resume_after_def ordered_by_def matches_searchQueryOf)
qed

lemma sorted_names_of_sorted_keys:
  "sorted (map name (sort_key (\<lambda>d. (name d, id_i d)) ds))"
proof -
  have "sorted_wrt (\<lambda>a b. (name a, id_i a) \<le> (name b, id_i b)) (sort_key (\<lambda>d. (name d, id_i d)) ds)"
    by (rule sorted_wrt_sort_key)
  then have "sorted_wrt (\<lambda>a b. name a \<le> name b) (sort_key (\<lambda>d. (name d, id_i d)) ds)"
    by (rule sorted_wrt_mono_rel[rotated]) (auto simp: less_eq_prod_def)
  then show ?thesis by (simp add: sorted_map)
qed

lemma sort_key_nonempty: "x \<in> set xs \<Longrightarrow> sort_key f xs \<noteq> []"
  by (metis empty_iff list.set(1) set_sort)

lemma hd_sort_key_le:
  assumes "x \<in> set xs"
  shows "f (hd (sort_key f xs)) \<le> f x"
proof -
  let ?L = "sort_key f xs"
  have ne: "?L \<noteq> []" using assms by (rule sort_key_nonempty)
  have "sorted (map f ?L)" by (rule sorted_sort_key)
  moreover have "x \<in> set ?L" using assms by simp
  ultimately show ?thesis using ne by (cases ?L) auto
qed

subsection \<open>Prefix search\<close>

text \<open>
  Claim C7. For every prefix and positive limit, \<open>searchItems\<close> returns at most \<open>limit\<close>
  items of the store, ordered by name, and the name of every returned item lies between the
  prefix (included) and the prefix followed by the sentinel U+F8FF (included), hence strictly
  below the prefix followed by the greatest code point U+10FFFF. An item whose name equals
  the prefix is in the range, and it comes first in the result; when the items in the range
  do not exceed the limit, all of them are returned. An item whose name is greater than the
  prefix in the last byte of the prefix is never returned.
\<close>

theorem C7_search_prefix_range:
  assumes "available st" and "0 < limitCount"
  shows "\<exists>res. searchItems st p limitCount = Inr res \<and>
           int (length res) \<le> limitCount \<and>
           sorted (map name res) \<and>
           set res \<subseteq> set (items st) \<and>
           (\<forall>d\<in>set res. p \<le> name d \<and> name d \<le> p @ uf8ff \<and> name d < p @ max_codepoint) \<and>
           ((\<exists>d\<in>set (items st). name d = p) \<longrightarrow> res \<noteq> [] \<and> name (hd res) = p) \<and>
           (int (length (filter (in_search_range p) (items st))) \<le> limitCount \<longrightarrow>
              set res = {d \<in> set (items st). p \<le> name d \<and> name d \<le> p @ uf8ff}) \<and>
           (\<forall>d\<in>set res. \<forall>q a b rest. p = q @ [a] \<and> a < b \<longrightarrow> name d \<noteq> q @ b # rest)"
proof -
  let ?F = "filter (in_search_range p) (items st)"
  let ?L = "sort_key (\<lambda>d. (name d, id_i d)) ?F"
  let ?res = "take (nat limitCount) ?L"
  have res: "searchItems st p limitCount = Inr ?res" using assms by (rule searchItems_eq)
  have len: "int (length ?res) \<le> limitCount" using assms(2) by simp
  have srt: "sorted (map name ?res)"
    using sorted_names_of_sorted_keys[of ?F] by (simp add: take_map[symmetric] sorted_wrt_take)
  have sub: "set ?res \<subseteq> set ?F" using set_take_subset[of "nat limitCount" ?L] by simp
  then have sub': "set ?res \<subseteq> set (items st)" by auto
  have rng: "\<forall>d\<in>set ?res. p \<le> name d \<and> name d \<le> p @ uf8ff \<and> name d < p @ max_codepoint"
  proof
    fix d assume "d \<in> set ?res"
    then have r: "p \<le> name d" "name d \<le> p @ uf8ff" using sub by (auto simp: in_search_range_def)
    have "p @ uf8ff < p @ max_codepoint" by (simp add: append_less_append uf8ff_less_max)
    then show "p \<le> name d \<and> name d \<le> p @ uf8ff \<and> name d < p @ max_codepoint" using r by simp
  qed
  have eq: "res' \<noteq> [] \<and> name (hd res') = p" if d: "d \<in> set (items st)" "name d = p" and "res' = ?res"
    for d res'
  proof -
    have dF: "d \<in> set ?F" using d le_append_self[of p uf8ff] by (simp add: in_search_range_def)
    then have ne: "?L \<noteq> []" by (rule sort_key_nonempty)
    then have ne': "?res \<noteq> []" using assms(2) by (cases ?L) (simp_all add: take_Cons')
    have hd: "hd ?res = hd ?L" using assms(2) by (simp add: hd_take)
    have "(name (hd ?L), id_i (hd ?L)) \<le> (name d, id_i d)" using dF by (rule hd_sort_key_le)
    then have "name (hd ?L) \<le> p" using d(2) by (auto simp: less_eq_prod_def)
    moreover have "hd ?L \<in> set ?F" using ne hd_in_set[OF ne] by simp
    then have "p \<le> name (hd ?L)" by (simp add: in_search_range_def)
    ultimately show ?thesis using ne' hd that(3) by simp
  qed
  have all: "set ?res = {d \<in> set (items st). p \<le> name d \<and> name d \<le> p @ uf8ff}"
    if "int (length ?F) \<le> limitCount"
  proof -
    have "?res = ?L" using that by simp
    then show ?thesis by (auto simp: in_search_range_def)
  qed
  have excl: "\<forall>d\<in>set ?res. \<forall>q a b rest. p = q @ [a] \<and> a < b \<longrightarrow> name d \<noteq> q @ b # rest"
  proof (intro ballI allI impI notI)
    fix d q a b rest
    assume d: "d \<in> set ?res" and pa: "p = q @ [a] \<and> a < b" and nm: "name d = q @ b # rest"
    have "name d \<le> p @ uf8ff" using rng d by simp
    moreover have "p @ uf8ff < name d" using pa nm greater_last_byte[of a b q uf8ff rest] by simp
    ultimately show False by simp
  qed
  show ?thesis using res len srt sub' rng eq all excl by blast
qed

theorem C7_search_prefix_range_witness:
  "available demo_store \<and> (0::int) < 8 \<and>
   (\<exists>d\<in>set (items demo_store). name d = ''iPhone'') \<and>
   ''iPhone'' = ''iPhon'' @ [CHR ''e''] \<and> CHR ''e'' < CHR ''f'' \<and>
   (\<exists>res. searchItems demo_store ''iPhone'' 8 = Inr res \<and>
      int (length res) \<le> 8 \<and> sorted (map name res) \<and>
      res \<noteq> [] \<and> name (hd res) = ''iPhone'' \<and>
      (\<forall>d\<in>set res. name d \<noteq> ''iPhon'' @ CHR ''f'' # []))"
proof -
  have h1: "available demo_store" by (simp add: available_def demo_store_def)
  have h2: "(0::int) < 8" by simp
  have h3: "\<exists>d\<in>set (items demo_store). name d = ''iPhone''"
    by (simp add: demo_store_def demo_item_def)
  have h4: "''iPhone'' = ''iPhon'' @ [CHR ''e''] \<and> CHR ''e'' < CHR ''f''" by simp
  from C7_search_prefix_range[OF h1 h2, of "''iPhone''"] obtain res where
    r: "searchItems demo_store ''iPhone'' 8 = Inr res" "int (length res) \<le> 8"
       "sorted (map name res)"
       "(\<exists>d\<in>set (items demo_store). name d = ''iPhone'') \<longrightarrow> res \<noteq> [] \<and> name (hd res) = ''iPhone''"
       "\<forall>d\<in>set res. \<forall>q a b rest. ''iPhone'' = q @ [a] \<and> a < b \<longrightarrow> name d \<noteq> q @ b # rest"
    by blast
  from r(5) h4 have "\<forall>d\<in>set res. name d \<noteq> ''iPhon'' @ CHR ''f'' # []" by blast
  with r h1 h2 h3 h4 show ?thesis by blast
qed

lemma search_iPhone_demo:
  "searchItems demo_store ''iPhone'' 8 = Inr [demo_item ''a'' ''iPhone'' 10 ''c1'' 3]"
  by (simp add: searchItems_def available_def getDocs_def searchQueryOf_def needs_composite_index_def
      run_query_def run_ordered_def take_limit_def resume_after_def ordered_by_def matches_def
      demo_store_def demo_item_def uf8ff_def)

subsection \<open>Hydrating and grouping completed line items\<close>









lemma groupedCheckouts_snoc:
  "groupedCheckouts loc (cs @ [c]) = push_group (loc (updatedAt c)) c (groupedCheckouts loc cs)"
  by (simp add: groupedCheckouts_def)

lemma groupedCheckouts_groups:
  "distinct (map fst (groupedCheckouts loc cs)) \<and>
   fst ` set (groupedCheckouts loc cs) = (\<lambda>c. loc (updatedAt c)) ` set cs \<and>
   (\<forall>g\<in>set (groupedCheckouts loc cs).
      snd g = filter (\<lambda>c. loc (updatedAt c) = fst g) cs)"
proof (induction cs rule: rev_induct)
  case Nil
  show ?case by (simp add: groupedCheckouts_def)
next
  case (snoc c cs)
  let ?G = "groupedCheckouts loc cs"
  let ?k = "loc (updatedAt c)"
  from snoc.IH have d: "distinct (map fst ?G)"
    and keys: "fst ` set ?G = (\<lambda>c. loc (updatedAt c)) ` set cs"
    and grp: "\<forall>g\<in>set ?G. snd g = filter (\<lambda>c. loc (updatedAt c) = fst g) cs"
    by simp_all
  show ?case
  proof (cases "?k \<in> set (map fst ?G)")
    case True
    define u :: "string \<times> checkout list \<Rightarrow> string \<times> checkout list"
      where "u = (\<lambda>(k, cs'). if k = ?k then (k, cs' @ [c]) else (k, cs'))"
    have G': "groupedCheckouts loc (cs @ [c]) = map u ?G"
      using True by (simp add: groupedCheckouts_snoc push_group_def u_def)
    have fst_u: "fst (u g) = fst g" for g by (cases g) (simp add: u_def)
    have snd_u: "snd (u g) = (if fst g = ?k then snd g @ [c] else snd g)" for g
      by (cases g) (simp add: u_def)
    have m: "map fst (map u ?G) = map fst ?G" by (simp add: fst_u)
    have c1: "distinct (map fst (map u ?G))" unfolding m by (rule d)
    have c2: "fst ` set (map u ?G) = (\<lambda>c. loc (updatedAt c)) ` set (cs @ [c])"
    proof -
      have "fst ` set (map u ?G) = set (map fst (map u ?G))" by (simp only: set_map)
      also have "\<dots> = fst ` set ?G" unfolding m by (simp only: set_map)
      finally show ?thesis using keys True by auto
    qed
    have c3: "\<forall>g\<in>set (map u ?G). snd g = filter (\<lambda>c. loc (updatedAt c) = fst g) (cs @ [c])"
    proof
      fix g' assume "g' \<in> set (map u ?G)"
      then obtain g where g: "g \<in> set ?G" "g' = u g" by auto
      have "snd g = filter (\<lambda>c. loc (updatedAt c) = fst g) cs" using grp g(1) by simp
      then show "snd g' = filter (\<lambda>c. loc (updatedAt c) = fst g') (cs @ [c])"
        unfolding g(2) fst_u snd_u by auto
    qed
    show ?thesis unfolding G' using c1 c2 c3 by blast
  next
    case False
    have G': "groupedCheckouts loc (cs @ [c]) = ?G @ [(?k, [c])]"
      using False by (simp add: groupedCheckouts_snoc push_group_def)
    have nk: "?k \<notin> (\<lambda>c. loc (updatedAt c)) ` set cs" using False keys by simp
    have none: "filter (\<lambda>c'. loc (updatedAt c') = ?k) cs = []"
      unfolding filter_empty_conv using nk by (metis imageI)
    have ne: "\<forall>g\<in>set ?G. fst g \<noteq> ?k"
    proof
      fix g assume "g \<in> set ?G"
      then have "fst g \<in> set (map fst ?G)" by (simp only: set_map) (rule imageI)
      then show "fst g \<noteq> ?k" using False by metis
    qed
    have c1: "distinct (map fst (?G @ [(?k, [c])]))" using d False by simp
    have c2: "fst ` set (?G @ [(?k, [c])]) = (\<lambda>c. loc (updatedAt c)) ` set (cs @ [c])"
      using keys by simp
    have c3: "\<forall>g\<in>set (?G @ [(?k, [c])]). snd g = filter (\<lambda>c. loc (updatedAt c) = fst g) (cs @ [c])"
      using grp ne none by auto
    show ?thesis unfolding G' using c1 c2 c3 by blast
  qed
qed

lemma groupedCheckouts_members:
  "g \<in> set (groupedCheckouts loc cs) \<Longrightarrow> set (snd g) \<subseteq> set cs"
  using groupedCheckouts_groups[of loc cs] by auto

subsection \<open>Order history\<close>




text \<open>Rounding is visible on ordinary prices: three units at the double nearest to 0.1 total
  the double 0.30000000000000004, which is not three times the price.\<close>

lemma order_total_rounds:
  "js_add 0 (js_mul (round_double (1 / 10)) 3) = 1351079888211149 / 4503599627370496 \<and>
   round_double (1 / 10) * 3 = 10808639105689191 / 36028797018963968"
  by code_simp

end
